theory Spec2Isabelle
  imports Main "HOL-Library.Word"
begin

unbundle bit_operations_syntax

section \<open>The Morse signalling device of gpiointerrupt.c\<close>

text \<open>
  The program signals one of three preset messages in Morse code on two LEDs. A periodic
  timer tick drives \<open>signal_message\<close>, which advances the playback by one phase; two button
  interrupts request the next or the previous message, and the main loop changes the
  message once the message in progress has ended.

  The global variables of the C file are the fields of one record that every function takes
  and returns. Integer types follow the target (TI CC3220S, ARM Cortex-M4): \<open>char\<close> is 8 bits,
  \<open>short\<close> 16 bits, \<open>int\<close> and \<open>long\<close> 32 bits. Values of type \<open>int\<close> that stay far inside the
  32-bit range are HOL integers. Reading an array beyond its end is undefined in C: the
  model returns \<open>None\<close> there.
\<close>

subsection \<open>State\<close>

text \<open>
  The housekeeping variables and the indices of the C file (lines 51-60), the two LED pins
  written through \<open>GPIO_write\<close>, and \<open>led_calls\<close>, the arguments of the calls of \<open>set_leds\<close>
  made so far, oldest first: the light patterns the device has shown. \<open>message_ended\<close> is a
  \<open>short int\<close>, kept as its 16 bits and read with \<open>sint\<close>; the other integers are unsigned.
  \<open>TimerFlag\<close>, which only makes the main loop wait for the next tick, is left out.
\<close>

record state =
  message_ended :: "16 word"
  button_pressed :: "8 word"
  next_message_index :: "8 word"
  message_index :: "16 word"
  character_index :: "16 word"
  symbol_index :: "16 word"
  phase :: "16 word"
  gpio_led_0 :: bool
  gpio_led_1 :: bool
  led_calls :: "8 word list"

text \<open>The initial values of the globals; \<open>configure_board\<close> turns both LEDs off.\<close>

definition init_state :: state where
  "init_state =
     \<lparr>message_ended = 0, button_pressed = 0, next_message_index = 0,
      message_index = 0, character_index = 0, symbol_index = 0, phase = 0,
      gpio_led_0 = False, gpio_led_1 = False, led_calls = []\<rparr>"

subsection \<open>Constants and arrays\<close>

definition messages :: "string list" where
  "messages = [''ss'', ''oo'', ''sos'']"

definition num_messages :: "16 word" where
  "num_messages = 3"

definition dot_len :: int where
  "dot_len = 2"

definition dash_len :: int where
  "dash_len = 4"

definition character_pause_len :: int where
  "character_pause_len = 2"

definition word_pause_len :: int where
  "word_pause_len = 4"

text \<open>The terminating character of a C string.\<close>

definition NUL :: char where
  "NUL = CHR 0x00"

text \<open>A string literal is the array of its characters followed by \<open>NUL\<close>.\<close>

definition c_str :: "string \<Rightarrow> char list" where
  "c_str s = s @ [NUL]"

text \<open>Array subscript \<open>a[i]\<close>: defined inside the array only.\<close>

definition c_index :: "'a list \<Rightarrow> nat \<Rightarrow> 'a option" where
  "c_index a i = (if i < length a then Some (a ! i) else None)"

text \<open>The remainder \<open>a % b\<close> of C on \<open>int\<close>: the quotient is truncated towards zero.\<close>

definition c_rem :: "int \<Rightarrow> int \<Rightarrow> int" where
  "c_rem a b = a - b * (sgn a * sgn b * (\<bar>a\<bar> div \<bar>b\<bar>))"

subsection \<open>The Morse table\<close>

definition get_morse :: "char \<Rightarrow> string" where
  "get_morse character =
     (if character = CHR ''a'' then ''.-''
      else if character = CHR ''b'' then ''-...''
      else if character = CHR ''c'' then ''-.-.''
      else if character = CHR ''d'' then ''-..''
      else if character = CHR ''e'' then ''.''
      else if character = CHR ''f'' then ''..-.''
      else if character = CHR ''g'' then ''--.''
      else if character = CHR ''h'' then ''....''
      else if character = CHR ''i'' then ''..''
      else if character = CHR ''j'' then ''.---''
      else if character = CHR ''k'' then ''-.-''
      else if character = CHR ''l'' then ''.-..''
      else if character = CHR ''m'' then ''--''
      else if character = CHR ''n'' then ''-.''
      else if character = CHR ''o'' then ''---''
      else if character = CHR ''p'' then ''.--.''
      else if character = CHR ''q'' then ''--.-''
      else if character = CHR ''r'' then ''.-.''
      else if character = CHR ''s'' then ''...''
      else if character = CHR ''t'' then ''-''
      else if character = CHR ''u'' then ''..-''
      else if character = CHR ''v'' then ''...-''
      else if character = CHR ''w'' then ''.--''
      else if character = CHR ''x'' then ''-..-''
      else if character = CHR ''y'' then ''-.--''
      else if character = CHR ''z'' then ''--..''
      else '' '')"

text \<open>
  The reference the table is compared with, following the words of the specification
  ("the standard international Morse pattern"): the letters of the International Morse
  Code (ITU-R M.1677), a dot written \<open>.\<close> and a dash \<open>-\<close>.
\<close>

definition international_morse :: "(char \<times> string) list" where
  "international_morse =
     [(CHR ''a'', ''.-''), (CHR ''b'', ''-...''), (CHR ''c'', ''-.-.''), (CHR ''d'', ''-..''),
      (CHR ''e'', ''.''), (CHR ''f'', ''..-.''), (CHR ''g'', ''--.''), (CHR ''h'', ''....''),
      (CHR ''i'', ''..''), (CHR ''j'', ''.---''), (CHR ''k'', ''-.-''), (CHR ''l'', ''.-..''),
      (CHR ''m'', ''--''), (CHR ''n'', ''-.''), (CHR ''o'', ''---''), (CHR ''p'', ''.--.''),
      (CHR ''q'', ''--.-''), (CHR ''r'', ''.-.''), (CHR ''s'', ''...''), (CHR ''t'', ''-''),
      (CHR ''u'', ''..-''), (CHR ''v'', ''...-''), (CHR ''w'', ''.--''), (CHR ''x'', ''-..-''),
      (CHR ''y'', ''-.--''), (CHR ''z'', ''--..'')]"

definition lowercase_letters :: string where
  "lowercase_letters = ''abcdefghijklmnopqrstuvwxyz''"

subsection \<open>LED output\<close>

text \<open>
  \<open>set_leds\<close> writes both pins off and then switches on the red LED for bit 0 and the green
  LED for bit 1 of its argument, so the pins end at the two bits.
\<close>

definition set_leds :: "8 word \<Rightarrow> state \<Rightarrow> state" where
  "set_leds led_settings s =
     s\<lparr>gpio_led_0 := (1 AND uint led_settings \<noteq> 0),
       gpio_led_1 := (2 AND uint led_settings \<noteq> 0),
       led_calls := led_calls s @ [led_settings]\<rparr>"

text \<open>
  The emission helpers. Each receives the phase by value. \<open>signal_dot\<close> takes a
  \<open>short int\<close>, the 16 bits of the caller's \<open>unsigned short\<close> read as a signed number; the
  others take an \<open>int\<close>. The assignment \<open>phase = 0\<close> in the else branch of \<open>signal_dot\<close> and
  \<open>signal_dash\<close> writes the parameter, a local variable that dies at the return: it is the
  inner \<open>let\<close> below, which binds a new \<open>ph\<close> and leaves the state alone.
\<close>

definition signal_dot :: "16 word \<Rightarrow> state \<Rightarrow> state" where
  "signal_dot ph s =
     (if sint ph \<le> 0 then set_leds 1 s
      else (let s1 = set_leds 0 s; ph = (0 :: 16 word) in s1))"

definition signal_dash :: "int \<Rightarrow> state \<Rightarrow> state" where
  "signal_dash ph s =
     (if ph \<le> 2 then set_leds 2 s
      else (let s1 = set_leds 0 s; ph = (0 :: int) in s1))"

definition character_pause :: "int \<Rightarrow> state \<Rightarrow> state" where
  "character_pause ph s = (if ph \<le> 1 then set_leds 0 s else s)"

definition word_pause :: "int \<Rightarrow> state \<Rightarrow> state" where
  "word_pause ph s = (if ph \<le> 3 then set_leds 0 s else s)"

subsection \<open>Button interrupts\<close>

text \<open>
  Both handlers run to completion. The sums are computed in \<open>int\<close> and stored in an
  \<open>unsigned char\<close>.
\<close>

definition gpioButtonFxn0 :: "state \<Rightarrow> state" where
  "gpioButtonFxn0 s =
     (if button_pressed s = 0
      then s\<lparr>next_message_index := word_of_int (uint (next_message_index s) + 1),
             button_pressed := 1\<rparr>
      else s)"

definition gpioButtonFxn1 :: "state \<Rightarrow> state" where
  "gpioButtonFxn1 s =
     (if button_pressed s = 0
      then s\<lparr>next_message_index :=
               word_of_int (uint (next_message_index s) + sint num_messages - 1),
             button_pressed := 1\<rparr>
      else s)"

datatype button = Button0 | Button1

fun press :: "button \<Rightarrow> state \<Rightarrow> state" where
  "press Button0 s = gpioButtonFxn0 s"
| "press Button1 s = gpioButtonFxn1 s"

text \<open>A run of button interrupts, in the order they arrive.\<close>

fun presses :: "button list \<Rightarrow> state \<Rightarrow> state" where
  "presses [] s = s"
| "presses (b # bs) s = presses bs (press b s)"

subsection \<open>The signalling step\<close>

text \<open>
  The three else branches of the symbol switch (lines 240-244, 252-256, 269-273): the next
  symbol is read into the local \<open>symbol\<close>, which nothing uses afterwards, and the phase
  starts again.
\<close>

definition next_symbol :: "char \<Rightarrow> state \<Rightarrow> state option" where
  "next_symbol character s =
     (let s1 = s\<lparr>symbol_index := symbol_index s + 1\<rparr> in
      case c_index (c_str (get_morse character)) (unat (symbol_index s1)) of
        None \<Rightarrow> None
      | Some symbol \<Rightarrow> Some (s1\<lparr>phase := 0\<rparr>))"

text \<open>The else branch of the pause between characters (lines 286-291).\<close>

definition next_character :: "string list \<Rightarrow> state \<Rightarrow> state option" where
  "next_character msgs s =
     (let s1 = s\<lparr>character_index := character_index s + 1\<rparr> in
      case c_index msgs (unat (message_index s1)) of
        None \<Rightarrow> None
      | Some message \<Rightarrow>
          (case c_index (c_str message) (unat (character_index s1)) of
             None \<Rightarrow> None
           | Some character \<Rightarrow> Some (s1\<lparr>symbol_index := 0, phase := 0\<rparr>)))"

text \<open>
  \<open>signal_message\<close>, one call per timer tick. The array of messages is a parameter, so that
  the step can be studied on other message lists than the preset one; the program runs
  \<open>signal_message messages\<close>.
\<close>

definition signal_message :: "string list \<Rightarrow> state \<Rightarrow> state option" where
  "signal_message msgs s0 =
     (case c_index msgs (unat (message_index s0)) of
        None \<Rightarrow> None
      | Some message \<Rightarrow>
     (case c_index (c_str message) (unat (character_index s0)) of
        None \<Rightarrow> None
      | Some character \<Rightarrow>
          if character \<noteq> NUL then
            (let s = s0\<lparr>message_ended := 0\<rparr> in
             case c_index (c_str (get_morse character)) (unat (symbol_index s)) of
               None \<Rightarrow> None
             | Some symbol \<Rightarrow>
                 if symbol \<noteq> NUL then
                   (if symbol = CHR ''.'' then
                      (if uint (phase s) < dot_len
                       then Some ((signal_dot (phase s) s)\<lparr>phase := phase s + 1\<rparr>)
                       else next_symbol character s)
                    else if symbol = CHR ''-'' then
                      (if uint (phase s) < dash_len
                       then Some ((signal_dash (uint (phase s)) s)\<lparr>phase := phase s + 1\<rparr>)
                       else next_symbol character s)
                    else
                      (if uint (phase s) < word_pause_len
                       then Some ((word_pause (uint (phase s)) s)\<lparr>phase := phase s + 1\<rparr>)
                       else next_symbol character s))
                 else
                   (if uint (phase s) \<le> character_pause_len
                    then Some ((character_pause (uint (phase s)) s)\<lparr>phase := phase s + 1\<rparr>)
                    else next_character msgs s))
          else
            (if uint (phase s0) \<le> word_pause_len
             then Some ((word_pause (uint (phase s0)) s0)\<lparr>phase := phase s0 + 1\<rparr>)
             else Some (s0\<lparr>message_ended := 1, phase := 0, symbol_index := 0,
                           character_index := 0\<rparr>))))"

text \<open>
  The character \<open>messages[message_index][character_index]\<close> and the symbol
  \<open>get_morse(character)[symbol_index]\<close> a step starts from, when the reads are defined.
\<close>

definition current_character :: "string list \<Rightarrow> state \<Rightarrow> char option" where
  "current_character msgs s =
     (case c_index msgs (unat (message_index s)) of
        None \<Rightarrow> None
      | Some message \<Rightarrow> c_index (c_str message) (unat (character_index s)))"

definition current_symbol :: "string list \<Rightarrow> state \<Rightarrow> char option" where
  "current_symbol msgs s =
     (case current_character msgs s of
        None \<Rightarrow> None
      | Some character \<Rightarrow> c_index (c_str (get_morse character)) (unat (symbol_index s)))"

text \<open>\<open>n\<close> timer ticks in a row, stopping at the first undefined read.\<close>

fun steps :: "string list \<Rightarrow> nat \<Rightarrow> state \<Rightarrow> state option" where
  "steps msgs 0 s = Some s"
| "steps msgs (Suc n) s =
     (case signal_message msgs s of None \<Rightarrow> None | Some s1 \<Rightarrow> steps msgs n s1)"

subsection \<open>Changing the message\<close>

definition normalize_message_index :: "16 word \<Rightarrow> 16 word" where
  "normalize_message_index index = word_of_int (c_rem (uint index) (sint num_messages))"

text \<open>
  The if statement of the main loop (lines 110-114). The chained assignment stores the
  normalized index in \<open>next_message_index\<close>, an \<open>unsigned char\<close>, and \<open>message_index\<close> takes
  the value stored there.
\<close>

definition change_message :: "state \<Rightarrow> state" where
  "change_message s =
     (if uint (next_message_index s) \<noteq> uint (message_index s) \<and> sint (message_ended s) = 1
      then
        (let stored = (ucast (normalize_message_index (ucast (next_message_index s))) :: 8 word)
         in s\<lparr>next_message_index := stored, message_index := ucast stored,
               message_ended := 0, button_pressed := 0\<rparr>)
      else s)"

subsection \<open>The program as a whole\<close>

text \<open>
  What can happen to the state: a timer tick that calls \<open>signal_message\<close> on the preset
  messages, a button interrupt, and the check of the main loop that may change the message.
  One iteration of the main loop is a tick followed by the check (the check alone during
  the first five iterations, while \<open>checkTime\<close> is below \<open>checkPeriod\<close>); the lists of events
  cover these and every other order. Interrupts are taken as atomic: a handler only touches \<open>next_message_index\<close> and
  \<open>button_pressed\<close>, which \<open>signal_message\<close> never reads, and while the main loop is
  inside the body of its if statement the latch is set, so a handler does nothing there.
\<close>

datatype event = Tick | Press button | Change

fun occur :: "event \<Rightarrow> state \<Rightarrow> state option" where
  "occur Tick s = signal_message messages s"
| "occur (Press b) s = Some (press b s)"
| "occur Change s = Some (change_message s)"

fun run :: "event list \<Rightarrow> state \<Rightarrow> state option" where
  "run [] s = Some s"
| "run (e # es) s = (case occur e s of None \<Rightarrow> None | Some s1 \<Rightarrow> run es s1)"

text \<open>The states after each of the first \<open>n\<close> ticks, in order.\<close>

fun run_trace :: "string list \<Rightarrow> nat \<Rightarrow> state \<Rightarrow> state list" where
  "run_trace msgs 0 s = []"
| "run_trace msgs (Suc n) s =
     (case signal_message msgs s of None \<Rightarrow> [] | Some s1 \<Rightarrow> s1 # run_trace msgs n s1)"

subsection \<open>The length of a playback\<close>

text \<open>
  The ticks a symbol takes: one for each phase below its length and one more for the step
  to the next symbol. A character takes the ticks of its symbols, then the phases 0, 1
  and 2 of the pause between characters and the step to the next character. A message takes
  the ticks of its characters, then the phases 0 to 4 of the pause between messages and the
  tick that sets \<open>message_ended\<close>.
\<close>

definition symbol_len :: "char \<Rightarrow> nat" where
  "symbol_len symbol =
     nat (if symbol = CHR ''.'' then dot_len
          else if symbol = CHR ''-'' then dash_len else word_pause_len)"

definition symbol_ticks :: "char \<Rightarrow> nat" where
  "symbol_ticks symbol = symbol_len symbol + 1"

definition character_ticks :: "char \<Rightarrow> nat" where
  "character_ticks character =
     sum_list (map symbol_ticks (get_morse character)) + (nat character_pause_len + 2)"

definition message_ticks :: "string \<Rightarrow> nat" where
  "message_ticks message =
     sum_list (map character_ticks message) + (nat word_pause_len + 2)"

text \<open>\<open>n\<close> ticks that lead from \<open>s\<close> to \<open>s'\<close> with \<open>message_ended\<close> at 0 after each of them.\<close>

definition quiet :: "string list \<Rightarrow> nat \<Rightarrow> state \<Rightarrow> state \<Rightarrow> bool" where
  "quiet msgs n s s' \<longleftrightarrow>
     steps msgs n s = Some s' \<and> map message_ended (run_trace msgs n s) = replicate n 0"

subsection \<open>Invariants\<close>

text \<open>
  The indices are inside their arrays: \<open>message_index\<close> is an index of the message array,
  \<open>character_index\<close> is at most the length of the message and \<open>symbol_index\<close> at most the
  length of the Morse string of the character under \<open>character_index\<close>.
\<close>

definition cursor_ok :: "string list \<Rightarrow> state \<Rightarrow> bool" where
  "cursor_ok msgs s \<longleftrightarrow>
     unat (message_index s) < length msgs \<and>
     unat (character_index s) \<le> length (msgs ! unat (message_index s)) \<and>
     unat (symbol_index s) \<le>
       length (get_morse (c_str (msgs ! unat (message_index s)) ! unat (character_index s)))"

text \<open>
  The length of what is being signalled: the pause between messages at the end of the
  message, the pause between characters at the end of a Morse string, or else the symbol.
\<close>

definition active_len :: "string list \<Rightarrow> state \<Rightarrow> int" where
  "active_len msgs s =
     (case current_character msgs s of
        None \<Rightarrow> 0
      | Some character \<Rightarrow>
          if character = NUL then word_pause_len
          else
            (case current_symbol msgs s of
               None \<Rightarrow> 0
             | Some symbol \<Rightarrow>
                 if symbol = NUL then character_pause_len
                 else if symbol = CHR ''.'' then dot_len
                 else if symbol = CHR ''-'' then dash_len
                 else word_pause_len))"

text \<open>
  The invariant of the cursor in the words of the specification: the phase is bounded by
  the length of the symbol or pause that is active.
\<close>

definition cursor_inv_spec :: "string list \<Rightarrow> state \<Rightarrow> bool" where
  "cursor_inv_spec msgs s \<longleftrightarrow> cursor_ok msgs s \<and> uint (phase s) \<le> active_len msgs s"

text \<open>
  The bound the code keeps: the two pauses compare with \<open><=\<close> where the symbols compare
  with \<open><\<close>, so in a pause the phase goes one beyond the length of the pause.
\<close>

definition phase_limit :: "string list \<Rightarrow> state \<Rightarrow> int" where
  "phase_limit msgs s =
     (case current_character msgs s of
        None \<Rightarrow> 0
      | Some character \<Rightarrow>
          if character = NUL then word_pause_len + 1
          else
            (case current_symbol msgs s of
               None \<Rightarrow> 0
             | Some symbol \<Rightarrow>
                 if symbol = NUL then character_pause_len + 1
                 else if symbol = CHR ''.'' then dot_len
                 else if symbol = CHR ''-'' then dash_len
                 else word_pause_len))"

definition cursor_inv :: "string list \<Rightarrow> state \<Rightarrow> bool" where
  "cursor_inv msgs s \<longleftrightarrow> cursor_ok msgs s \<and> uint (phase s) \<le> phase_limit msgs s"

text \<open>
  What the button handlers and the change of message keep between them: the requested
  index is the index of the message, or one or two presses beyond it, and it differs from
  the index of the message exactly while the latch is set.
\<close>

definition selection_inv :: "state \<Rightarrow> bool" where
  "selection_inv s \<longleftrightarrow>
     unat (message_index s) < 3 \<and>
     (if button_pressed s = 0
      then unat (next_message_index s) = unat (message_index s)
      else unat (next_message_index s) = unat (message_index s) + 1 \<or>
           unat (next_message_index s) = unat (message_index s) + 2)"

text \<open>
  The invariant of the whole program on the preset messages: the indices are inside
  their arrays, the selection is as above, and while \<open>message_ended\<close> is 1 the cursor is at
  the start of the message.
\<close>

definition program_inv :: "state \<Rightarrow> bool" where
  "program_inv s \<longleftrightarrow>
     cursor_ok messages s \<and> selection_inv s \<and>
     (message_ended s = 0 \<or>
      message_ended s = 1 \<and> character_index s = 0 \<and> symbol_index s = 0)"

section \<open>Theorems\<close>

subsection \<open>The Morse table\<close>

lemma get_morse_letters:
  "map get_morse lowercase_letters = map snd international_morse"
  by (simp add: get_morse_def lowercase_letters_def international_morse_def)

lemma get_morse_other:
  "character \<notin> set lowercase_letters \<Longrightarrow> get_morse character = '' ''"
  by (simp add: get_morse_def lowercase_letters_def)

lemma international_morse_keys:
  "map fst international_morse = lowercase_letters"
  by (simp add: lowercase_letters_def international_morse_def)

lemma international_morse_symbols:
  "\<forall>p \<in> set (map snd international_morse). p \<noteq> [] \<and> set p \<subseteq> {CHR ''.'', CHR ''-''}"
  by (simp add: international_morse_def)

text \<open>
  C7. \<open>get_morse\<close> is a total function of the character alone. On the 26 lowercase letters
  it returns the pattern of the International Morse Code, a non-empty string of \<open>.\<close> and
  \<open>-\<close>; on every other character, the space among them, it returns the string of one space.
\<close>

theorem get_morse_table:
  "map get_morse lowercase_letters = map snd international_morse \<and>
   map fst international_morse = lowercase_letters \<and>
   (\<forall>p \<in> set (map snd international_morse). p \<noteq> [] \<and> set p \<subseteq> {CHR ''.'', CHR ''-''}) \<and>
   (\<forall>character. character \<notin> set lowercase_letters \<longrightarrow> get_morse character = '' '')"
  using get_morse_letters international_morse_keys international_morse_symbols get_morse_other
  by blast

theorem get_morse_table_witness:
  "CHR '' '' \<notin> set lowercase_letters \<and> get_morse CHR '' '' = '' '' \<and>
   CHR ''S'' \<notin> set lowercase_letters \<and> get_morse CHR ''S'' = '' '' \<and>
   ''...'' \<in> set (map snd international_morse) \<and> set ''...'' \<subseteq> {CHR ''.'', CHR ''-''} \<and>
   get_morse CHR ''s'' = ''...''"
proof -
  have a: "CHR '' '' \<notin> set lowercase_letters" and b: "CHR ''S'' \<notin> set lowercase_letters"
    by (simp_all add: lowercase_letters_def)
  have c: "''...'' \<in> set (map snd international_morse)"
    by (simp add: international_morse_def)
  have d: "get_morse CHR ''s'' = ''...''"
    by (simp add: get_morse_def)
  from a b c d get_morse_table show ?thesis
    by blast
qed

subsection \<open>Button interrupts\<close>

lemma gpioButtonFxn0_latched: "button_pressed (gpioButtonFxn0 s) \<noteq> 0"
  by (simp add: gpioButtonFxn0_def)

lemma press_latched: "button_pressed s \<noteq> 0 \<Longrightarrow> press b s = s"
  by (cases b) (simp_all add: gpioButtonFxn0_def gpioButtonFxn1_def)

lemma presses_latched: "button_pressed s \<noteq> 0 \<Longrightarrow> presses bs s = s"
  by (induction bs arbitrary: s) (simp_all add: press_latched)

text \<open>
  C8. \<open>gpioButtonFxn0\<close> (requestNext) is idempotent: a press on a clear latch adds one to
  \<open>next_message_index\<close> and sets the latch, a second call leaves \<open>next_message_index\<close> at the
  value of the first, and after a call any run of further presses of either button, with no
  change of message in between, leaves the whole state as the first call left it.
\<close>

theorem gpioButtonFxn0_idempotent:
  "(button_pressed s = 0 \<longrightarrow>
      next_message_index (gpioButtonFxn0 s) = next_message_index s + 1) \<and>
   next_message_index (gpioButtonFxn0 (gpioButtonFxn0 s)) = next_message_index (gpioButtonFxn0 s) \<and>
   presses bs (gpioButtonFxn0 s) = gpioButtonFxn0 s"
proof -
  have once: "button_pressed s = 0 \<longrightarrow>
      next_message_index (gpioButtonFxn0 s) = next_message_index s + 1"
    by (simp add: gpioButtonFxn0_def)
  have latched: "presses bs (gpioButtonFxn0 s) = gpioButtonFxn0 s" for bs
    by (rule presses_latched) (rule gpioButtonFxn0_latched)
  have "presses [Button0] (gpioButtonFxn0 s) = gpioButtonFxn0 s"
    by (rule latched)
  then have twice: "gpioButtonFxn0 (gpioButtonFxn0 s) = gpioButtonFxn0 s"
    by simp
  from once twice latched show ?thesis
    by simp
qed

theorem gpioButtonFxn0_idempotent_witness:
  "button_pressed init_state = 0 \<and>
   next_message_index (gpioButtonFxn0 init_state) = 1 \<and>
   next_message_index (gpioButtonFxn0 (gpioButtonFxn0 init_state)) = 1 \<and>
   next_message_index (presses [Button1, Button0, Button1] (gpioButtonFxn0 init_state)) = 1"
  using gpioButtonFxn0_idempotent [of init_state "[Button1, Button0, Button1]"]
  by (simp add: init_state_def)

subsection \<open>The emission helpers\<close>

lemma set_leds_frame:
  "message_ended (set_leds p s) = message_ended s \<and>
   button_pressed (set_leds p s) = button_pressed s \<and>
   next_message_index (set_leds p s) = next_message_index s \<and>
   message_index (set_leds p s) = message_index s \<and>
   character_index (set_leds p s) = character_index s \<and>
   symbol_index (set_leds p s) = symbol_index s \<and>
   phase (set_leds p s) = phase s \<and>
   led_calls (set_leds p s) = led_calls s @ [p]"
  by (simp add: set_leds_def)

text \<open>
  C10. \<open>signal_dot\<close> and \<open>signal_dash\<close> leave \<open>message_index\<close>, \<open>character_index\<close>,
  \<open>symbol_index\<close>, \<open>phase\<close> and \<open>message_ended\<close> (and the selection variables) as they were,
  whatever phase they are given; their effect is one call of \<open>set_leds\<close>: pattern 1 or off
  for a dot, pattern 2 or off for a dash.
\<close>

theorem signal_dot_dash_frame:
  "message_index (signal_dot ph s) = message_index s \<and>
   character_index (signal_dot ph s) = character_index s \<and>
   symbol_index (signal_dot ph s) = symbol_index s \<and>
   phase (signal_dot ph s) = phase s \<and>
   message_ended (signal_dot ph s) = message_ended s \<and>
   next_message_index (signal_dot ph s) = next_message_index s \<and>
   button_pressed (signal_dot ph s) = button_pressed s \<and>
   signal_dot ph s = set_leds (if sint ph \<le> 0 then 1 else 0) s \<and>
   led_calls (signal_dot ph s) = led_calls s @ [if sint ph \<le> 0 then 1 else 0] \<and>
   message_index (signal_dash ph' s) = message_index s \<and>
   character_index (signal_dash ph' s) = character_index s \<and>
   symbol_index (signal_dash ph' s) = symbol_index s \<and>
   phase (signal_dash ph' s) = phase s \<and>
   message_ended (signal_dash ph' s) = message_ended s \<and>
   next_message_index (signal_dash ph' s) = next_message_index s \<and>
   button_pressed (signal_dash ph' s) = button_pressed s \<and>
   signal_dash ph' s = set_leds (if ph' \<le> 2 then 2 else 0) s \<and>
   led_calls (signal_dash ph' s) = led_calls s @ [if ph' \<le> 2 then 2 else 0]"
  by (simp add: signal_dot_def signal_dash_def set_leds_frame)

subsection \<open>Single steps\<close>

lemma c_str_not_NUL: "c_index (c_str m) i = Some c \<Longrightarrow> c \<noteq> NUL \<Longrightarrow> i < length m"
  by (auto simp: c_index_def c_str_def nth_append split: if_splits)

lemma unat_succ_le: "unat (x + 1 :: 16 word) \<le> unat x + 1"
  by (simp add: unat_word_ariths)

lemma next_symbol_defined:
  assumes "unat (symbol_index s) < length (get_morse c)"
  shows "next_symbol c s = Some (s\<lparr>symbol_index := symbol_index s + 1, phase := 0\<rparr>)"
proof -
  have "unat (symbol_index s + 1) < length (c_str (get_morse c))"
    using assms unat_succ_le [of "symbol_index s"] by (simp add: c_str_def)
  then show ?thesis
    by (simp add: next_symbol_def c_index_def)
qed

lemma next_character_defined:
  assumes "c_index msgs (unat (message_index s)) = Some message"
    and "unat (character_index s) < length message"
  shows "next_character msgs s =
     Some (s\<lparr>character_index := character_index s + 1, symbol_index := 0, phase := 0\<rparr>)"
proof -
  have "unat (character_index s + 1) < length (c_str message)"
    using assms(2) unat_succ_le [of "character_index s"] by (simp add: c_str_def)
  then obtain c where "c_index (c_str message) (unat (character_index s + 1)) = Some c"
    by (simp add: c_index_def)
  with assms(1) show ?thesis
    by (simp add: next_character_def)
qed

lemma small_phase: "uint (p :: 16 word) < 2 \<Longrightarrow> (sint p \<le> 0) = (p = 0)"
proof -
  assume "uint p < 2"
  then have "uint p = 0 \<or> uint p = 1"
    using uint_ge_0 [of p] by arith
  then have "p = 0 \<or> p = 1"
    by (auto simp: word_uint_eq_iff)
  then show ?thesis by auto
qed

text \<open>The step at a symbol of a character.\<close>

lemma symbol_step:
  assumes "current_character msgs s = Some character" "character \<noteq> NUL"
    and "current_symbol msgs s = Some symbol" "symbol \<noteq> NUL"
  shows "signal_message msgs s =
     (let s1 = s\<lparr>message_ended := 0\<rparr> in
      if symbol = CHR ''.'' then
        (if uint (phase s) < 2 then Some ((signal_dot (phase s) s1)\<lparr>phase := phase s + 1\<rparr>)
         else Some (s1\<lparr>symbol_index := symbol_index s + 1, phase := 0\<rparr>))
      else if symbol = CHR ''-'' then
        (if uint (phase s) < 4 then Some ((signal_dash (uint (phase s)) s1)\<lparr>phase := phase s + 1\<rparr>)
         else Some (s1\<lparr>symbol_index := symbol_index s + 1, phase := 0\<rparr>))
      else
        (if uint (phase s) < 4 then Some ((word_pause (uint (phase s)) s1)\<lparr>phase := phase s + 1\<rparr>)
         else Some (s1\<lparr>symbol_index := symbol_index s + 1, phase := 0\<rparr>)))"
proof -
  from assms(1) obtain message where
    m: "c_index msgs (unat (message_index s)) = Some message"
    and c: "c_index (c_str message) (unat (character_index s)) = Some character"
    by (auto simp: current_character_def split: option.splits)
  from assms(1,3) have y: "c_index (c_str (get_morse character)) (unat (symbol_index s)) = Some symbol"
    by (simp add: current_symbol_def)
  from y assms(4) have "unat (symbol_index s) < length (get_morse character)"
    by (rule c_str_not_NUL)
  then have n: "next_symbol character (s\<lparr>message_ended := 0\<rparr>) =
      Some (s\<lparr>message_ended := 0, symbol_index := symbol_index s + 1, phase := 0\<rparr>)"
    using next_symbol_defined [of "s\<lparr>message_ended := 0\<rparr>" character] by simp
  show ?thesis
    using assms(2,4) 
    by (simp add: signal_message_def m c y n Let_def dot_len_def dash_len_def word_pause_len_def)
qed

text \<open>The step after the last symbol of a character: the pause between characters.\<close>

lemma character_pause_step:
  assumes "current_character msgs s = Some character" "character \<noteq> NUL"
    and "current_symbol msgs s = Some NUL"
  shows "signal_message msgs s =
     (let s1 = s\<lparr>message_ended := 0\<rparr> in
      if uint (phase s) \<le> 2
      then Some ((character_pause (uint (phase s)) s1)\<lparr>phase := phase s + 1\<rparr>)
      else Some (s1\<lparr>character_index := character_index s + 1, symbol_index := 0, phase := 0\<rparr>))"
proof -
  from assms(1) obtain message where
    m: "c_index msgs (unat (message_index s)) = Some message"
    and c: "c_index (c_str message) (unat (character_index s)) = Some character"
    by (auto simp: current_character_def split: option.splits)
  from assms(1,3) have y: "c_index (c_str (get_morse character)) (unat (symbol_index s)) = Some NUL"
    by (simp add: current_symbol_def)
  from c assms(2) have "unat (character_index s) < length message"
    by (rule c_str_not_NUL)
  then have n: "next_character msgs (s\<lparr>message_ended := 0\<rparr>) =
      Some (s\<lparr>message_ended := 0, character_index := character_index s + 1,
              symbol_index := 0, phase := 0\<rparr>)"
    using next_character_defined [of msgs "s\<lparr>message_ended := 0\<rparr>" message] m by simp
  show ?thesis
    using assms(2)
    by (simp add: signal_message_def m c y n Let_def character_pause_len_def)
qed

text \<open>The step at the end of the message: the pause between messages.\<close>

lemma word_pause_step:
  assumes "current_character msgs s = Some NUL"
  shows "signal_message msgs s =
     (if uint (phase s) \<le> 4
      then Some ((word_pause (uint (phase s)) s)\<lparr>phase := phase s + 1\<rparr>)
      else Some (s\<lparr>message_ended := 1, phase := 0, symbol_index := 0, character_index := 0\<rparr>))"
  using assms
  by (auto simp: signal_message_def current_character_def word_pause_len_def
      split: option.splits)

subsection \<open>Dots and dashes\<close>

text \<open>
  C1, as amended. At a dot, a step with \<open>phase < dot_len\<close> calls \<open>set_leds\<close> once, with
  pattern 1 (red LED) at phase 0 and with 0 (both off) at phase 1, and adds one to the phase;
  at a dash, a step with \<open>phase < dash_len\<close> calls it with pattern 2 (green LED) at phases
  0, 1 and 2 and with 0 at phase 3. Once the phase has reached the length of the symbol, the
  step adds one to \<open>symbol_index\<close>, sets the phase to 0 and calls \<open>set_leds\<close> not at all.
  In both cases the step clears \<open>message_ended\<close>.
\<close>

theorem signal_message_dot_dash:
  assumes "current_character msgs s = Some character" and "character \<noteq> NUL"
    and "current_symbol msgs s = Some symbol"
  shows
    "(symbol = CHR ''.'' \<longrightarrow>
        signal_message msgs s =
          Some (if uint (phase s) < dot_len
                then (set_leds (if phase s = 0 then 1 else 0) s)
                       \<lparr>message_ended := 0, phase := phase s + 1\<rparr>
                else s\<lparr>message_ended := 0, symbol_index := symbol_index s + 1, phase := 0\<rparr>)) \<and>
     (symbol = CHR ''-'' \<longrightarrow>
        signal_message msgs s =
          Some (if uint (phase s) < dash_len
                then (set_leds (if uint (phase s) \<le> 2 then 2 else 0) s)
                       \<lparr>message_ended := 0, phase := phase s + 1\<rparr>
                else s\<lparr>message_ended := 0, symbol_index := symbol_index s + 1, phase := 0\<rparr>))"
proof (intro conjI impI)
  assume dot: "symbol = CHR ''.''"
  then have "symbol \<noteq> NUL" by (simp add: NUL_def)
  from symbol_step [OF assms this] dot
  show "signal_message msgs s =
          Some (if uint (phase s) < dot_len
                then (set_leds (if phase s = 0 then 1 else 0) s)
                       \<lparr>message_ended := 0, phase := phase s + 1\<rparr>
                else s\<lparr>message_ended := 0, symbol_index := symbol_index s + 1, phase := 0\<rparr>)"
    by (simp add: dot_len_def signal_dot_def small_phase set_leds_def)
next
  assume dash: "symbol = CHR ''-''"
  then have "symbol \<noteq> NUL" by (simp add: NUL_def)
  from symbol_step [OF assms this] dash
  show "signal_message msgs s =
          Some (if uint (phase s) < dash_len
                then (set_leds (if uint (phase s) \<le> 2 then 2 else 0) s)
                       \<lparr>message_ended := 0, phase := phase s + 1\<rparr>
                else s\<lparr>message_ended := 0, symbol_index := symbol_index s + 1, phase := 0\<rparr>)"
    by (simp add: dash_len_def signal_dash_def set_leds_def)
qed

theorem signal_message_dot_dash_witness:
  "current_character messages init_state = Some CHR ''s'' \<and> CHR ''s'' \<noteq> NUL \<and>
   current_symbol messages init_state = Some CHR ''.'' \<and>
   map_option led_calls (signal_message messages init_state) = Some [1] \<and>
   current_character messages (init_state\<lparr>message_index := 1, phase := 3\<rparr>) = Some CHR ''o'' \<and>
   CHR ''o'' \<noteq> NUL \<and>
   current_symbol messages (init_state\<lparr>message_index := 1, phase := 3\<rparr>) = Some CHR ''-'' \<and>
   map_option led_calls (signal_message messages (init_state\<lparr>message_index := 1, phase := 3\<rparr>))
     = Some [0]"
proof -
  have a: "current_character messages init_state = Some CHR ''s''"
    and b: "CHR ''s'' \<noteq> NUL"
    and c: "current_symbol messages init_state = Some CHR ''.''"
    by code_simp+
  have a': "current_character messages (init_state\<lparr>message_index := 1, phase := 3\<rparr>) = Some CHR ''o''"
    and b': "CHR ''o'' \<noteq> NUL"
    and c': "current_symbol messages (init_state\<lparr>message_index := 1, phase := 3\<rparr>) = Some CHR ''-''"
    by code_simp+
  from signal_message_dot_dash [OF a b c]
  have d: "map_option led_calls (signal_message messages init_state) = Some [1]"
    by (simp add: init_state_def dot_len_def set_leds_def)
  from signal_message_dot_dash [OF a' b' c']
  have d': "map_option led_calls
      (signal_message messages (init_state\<lparr>message_index := 1, phase := 3\<rparr>)) = Some [0]"
    by (simp add: init_state_def dash_len_def set_leds_def)
  from a b c d a' b' c' d' show ?thesis
    by simp
qed

text \<open>
  C1 as stated fails: at the second tick of a dot (phase 1, below \<open>dot_len\<close>) and at the
  fourth tick of a dash (phase 3, below \<open>dash_len\<close>) the step shows both LEDs off. The dot is
  the first symbol of message 0 (the string ss), the dash the first of message 1 (oo).
\<close>

theorem dot_second_tick_counterexample:
  "map_option (current_symbol messages) (steps messages 1 init_state) = Some (Some CHR ''.'') \<and>
   map_option (\<lambda>s. uint (phase s) < dot_len) (steps messages 1 init_state) = Some True \<and>
   map_option led_calls (steps messages 1 init_state) = Some [1] \<and>
   map_option led_calls (steps messages 2 init_state) = Some [1, 0] \<and>
   map_option (current_symbol messages) (steps messages 3 (init_state\<lparr>message_index := 1\<rparr>))
     = Some (Some CHR ''-'') \<and>
   map_option (\<lambda>s. uint (phase s) < dash_len) (steps messages 3 (init_state\<lparr>message_index := 1\<rparr>))
     = Some True \<and>
   map_option led_calls (steps messages 3 (init_state\<lparr>message_index := 1\<rparr>)) = Some [2, 2, 2] \<and>
   map_option led_calls (steps messages 4 (init_state\<lparr>message_index := 1\<rparr>)) = Some [2, 2, 2, 0]"
  by code_simp

subsection \<open>The invariant of the cursor\<close>

lemma uint_succ_le: "uint (x + 1 :: 16 word) \<le> uint x + 1"
  using unat_succ_le [of x] by (simp add: uint_nat del: of_nat_unat)

lemma same_cursor:
  assumes "message_index s' = message_index s" "character_index s' = character_index s"
    and "symbol_index s' = symbol_index s"
  shows "current_character msgs s' = current_character msgs s"
    and "current_symbol msgs s' = current_symbol msgs s"
    and "cursor_ok msgs s' = cursor_ok msgs s"
    and "phase_limit msgs s' = phase_limit msgs s"
    and "active_len msgs s' = active_len msgs s"
proof -
  show c: "current_character msgs s' = current_character msgs s"
    using assms by (simp add: current_character_def cong: option.case_cong)
  show y: "current_symbol msgs s' = current_symbol msgs s"
    using assms by (simp add: current_symbol_def c cong: option.case_cong)
  show "cursor_ok msgs s' = cursor_ok msgs s"
    using assms by (simp add: cursor_ok_def)
  show "phase_limit msgs s' = phase_limit msgs s"
    by (simp add: phase_limit_def c y cong: option.case_cong if_cong)
  show "active_len msgs s' = active_len msgs s"
    by (simp add: active_len_def c y cong: option.case_cong if_cong)
qed

lemma phase_limit_nonneg: "0 \<le> phase_limit msgs s"
  by (simp add: phase_limit_def dot_len_def dash_len_def word_pause_len_def
      character_pause_len_def split: option.splits)

lemma cursor_ok_character:
  assumes "cursor_ok msgs s"
  shows "current_character msgs s =
     Some (c_str (msgs ! unat (message_index s)) ! unat (character_index s))"
  using assms by (simp add: cursor_ok_def current_character_def c_index_def c_str_def)

lemma cursor_ok_symbol:
  assumes "cursor_ok msgs s"
  shows "current_symbol msgs s =
     Some (c_str (get_morse (c_str (msgs ! unat (message_index s)) ! unat (character_index s)))
            ! unat (symbol_index s))"
  using assms
  by (simp add: cursor_ok_character current_symbol_def)
     (simp add: cursor_ok_def c_index_def c_str_def)

lemma not_NUL_inside: "i \<le> length m \<Longrightarrow> c_str m ! i \<noteq> NUL \<Longrightarrow> i < length m"
  by (cases "i = length m") (simp_all add: c_str_def)

lemma set_leds_cursor:
  "message_index (set_leds p s) = message_index s"
  "character_index (set_leds p s) = character_index s"
  "symbol_index (set_leds p s) = symbol_index s"
  "phase (set_leds p s) = phase s"
  by (simp_all add: set_leds_def)

text \<open>
  From indices inside their arrays every read of the step is defined, and the step ends
  with the indices inside their arrays and the phase within its limit.
\<close>

lemma cursor_ok_step:
  assumes ok: "cursor_ok msgs s"
  shows "\<exists>s'. signal_message msgs s = Some s' \<and> cursor_inv msgs s'"
proof -
  define message where "message = msgs ! unat (message_index s)"
  define character where "character = c_str message ! unat (character_index s)"
  define symbol where "symbol = c_str (get_morse character) ! unat (symbol_index s)"
  from ok have c: "current_character msgs s = Some character"
    by (simp add: cursor_ok_character character_def message_def)
  from ok have y: "current_symbol msgs s = Some symbol"
    by (simp add: cursor_ok_symbol symbol_def character_def message_def)
  from ok have mi: "unat (message_index s) < length msgs"
    and ci: "unat (character_index s) \<le> length message"
    and si: "unat (symbol_index s) \<le> length (get_morse character)"
    by (simp_all add: cursor_ok_def message_def character_def)
  show ?thesis
  proof (cases "character = NUL")
    case True
    with c have c0: "current_character msgs s = Some NUL" by simp
    show ?thesis
    proof (cases "uint (phase s) \<le> 4")
      case True
      let ?s' = "(word_pause (uint (phase s)) s)\<lparr>phase := phase s + 1\<rparr>"
      have step: "signal_message msgs s = Some ?s'"
        using word_pause_step [OF c0] True by simp
      have same: "message_index ?s' = message_index s" "character_index ?s' = character_index s"
        "symbol_index ?s' = symbol_index s"
        by (simp_all add: word_pause_def set_leds_cursor)
      have "phase_limit msgs s = 5"
        using c0 by (simp add: phase_limit_def word_pause_len_def)
      then have "uint (phase ?s') \<le> phase_limit msgs ?s'"
        using True uint_succ_le [of "phase s"] by (simp add: same_cursor(4) [OF same])
      with ok step show ?thesis
        by (simp add: cursor_inv_def same_cursor(3) [OF same])
    next
      case False
      let ?s' = "s\<lparr>message_ended := 1, phase := 0, symbol_index := 0, character_index := 0\<rparr>"
      have step: "signal_message msgs s = Some ?s'"
        using word_pause_step [OF c0] False by simp
      have "cursor_ok msgs ?s'"
        using mi by (simp add: cursor_ok_def)
      with step phase_limit_nonneg [of msgs ?s'] show ?thesis
        by (simp add: cursor_inv_def)
    qed
  next
    case False
    note not_end = this
    from ci False have ci': "unat (character_index s) < length message"
      unfolding character_def by (rule not_NUL_inside)
    show ?thesis
    proof (cases "symbol = NUL")
      case True
      with y have y0: "current_symbol msgs s = Some NUL" by simp
      show ?thesis
      proof (cases "uint (phase s) \<le> 2")
        case True
        let ?s' = "(character_pause (uint (phase s)) (s\<lparr>message_ended := 0\<rparr>))\<lparr>phase := phase s + 1\<rparr>"
        have step: "signal_message msgs s = Some ?s'"
          using character_pause_step [OF c not_end y0] True by (simp add: Let_def)
        have same: "message_index ?s' = message_index s" "character_index ?s' = character_index s"
          "symbol_index ?s' = symbol_index s"
          by (simp_all add: character_pause_def set_leds_cursor)
        have "phase_limit msgs s = 3"
          using c y0 not_end by (simp add: phase_limit_def character_pause_len_def)
        then have "uint (phase ?s') \<le> phase_limit msgs ?s'"
          using True uint_succ_le [of "phase s"] by (simp add: same_cursor(4) [OF same])
        with ok step show ?thesis
          by (simp add: cursor_inv_def same_cursor(3) [OF same])
      next
        case False
        let ?s' = "s\<lparr>message_ended := 0, character_index := character_index s + 1,
                     symbol_index := 0, phase := 0\<rparr>"
        have step: "signal_message msgs s = Some ?s'"
          using character_pause_step [OF c not_end y0] False by (simp add: Let_def)
        have "unat (character_index s + 1) \<le> length message"
          using ci' unat_succ_le [of "character_index s"] by simp
        then have "cursor_ok msgs ?s'"
          using mi by (simp add: cursor_ok_def message_def)
        with step phase_limit_nonneg [of msgs ?s'] show ?thesis
          by (simp add: cursor_inv_def)
      qed
    next
      case False
      note not_last = this
      from si False have si': "unat (symbol_index s) < length (get_morse character)"
        unfolding symbol_def by (rule not_NUL_inside)
      define len where "len = (if symbol = CHR ''.'' then 2 else 4 :: int)"
      define s' where "s' =
         (if symbol = CHR ''.'' then signal_dot (phase s) (s\<lparr>message_ended := 0\<rparr>)
          else if symbol = CHR ''-'' then signal_dash (uint (phase s)) (s\<lparr>message_ended := 0\<rparr>)
          else word_pause (uint (phase s)) (s\<lparr>message_ended := 0\<rparr>))\<lparr>phase := phase s + 1\<rparr>"
      have lim: "phase_limit msgs s = len"
        using c y not_end not_last
        by (simp add: phase_limit_def len_def dot_len_def dash_len_def word_pause_len_def)
      show ?thesis
      proof (cases "uint (phase s) < len")
        case True
        have step: "signal_message msgs s = Some s'"
          using symbol_step [OF c not_end y not_last] True
          by (auto simp: Let_def len_def s'_def split: if_splits)
        have same: "message_index s' = message_index s" "character_index s' = character_index s"
          "symbol_index s' = symbol_index s"
          by (simp_all add: s'_def signal_dot_def signal_dash_def word_pause_def set_leds_cursor)
        have "phase s' = phase s + 1"
          by (simp add: s'_def)
        then have "uint (phase s') \<le> phase_limit msgs s'"
          using True uint_succ_le [of "phase s"] lim
          by (simp add: same_cursor(4) [OF same])
        with ok step show ?thesis
          by (simp add: cursor_inv_def same_cursor(3) [OF same])
      next
        case False
        let ?s' = "s\<lparr>message_ended := 0, symbol_index := symbol_index s + 1, phase := 0\<rparr>"
        have step: "signal_message msgs s = Some ?s'"
          using symbol_step [OF c not_end y not_last] False
          by (auto simp: Let_def len_def split: if_splits)
        have "unat (symbol_index s + 1) \<le> length (get_morse character)"
          using si' unat_succ_le [of "symbol_index s"] by simp
        then have "cursor_ok msgs ?s'"
          using mi ci by (simp add: cursor_ok_def message_def character_def)
        with step phase_limit_nonneg [of msgs ?s'] show ?thesis
          by (simp add: cursor_inv_def)
      qed
    qed
  qed
qed

text \<open>
  C6, as amended. Every step from a state that satisfies the invariant is defined and ends
  in a state that satisfies it: \<open>character_index\<close> is at most the length of the message,
  \<open>symbol_index\<close> at most the length of the Morse string of the character, and the phase
  is at most the length of the active dot, dash or space symbol, and at most one more than
  the length of the pause during the pause between characters (3) and between messages (5).
  The preset messages start inside the invariant.
\<close>

theorem signal_message_cursor_inv:
  "cursor_inv messages init_state \<and>
   (cursor_inv msgs s \<longrightarrow> (\<exists>s'. signal_message msgs s = Some s' \<and> cursor_inv msgs s'))"
proof
  show "cursor_inv messages init_state"
    by code_simp
  show "cursor_inv msgs s \<longrightarrow> (\<exists>s'. signal_message msgs s = Some s' \<and> cursor_inv msgs s')"
    using cursor_ok_step [of msgs s] by (simp add: cursor_inv_def)
qed

theorem signal_message_cursor_inv_witness:
  "cursor_inv messages init_state \<and>
   map_option (cursor_inv messages) (signal_message messages init_state) = Some True"
proof -
  have a: "cursor_inv messages init_state"
    by code_simp
  with signal_message_cursor_inv [of messages init_state] show ?thesis
    by auto
qed

text \<open>
  C6 as stated fails: the first eleven steps of the preset message keep the phase within
  the length of what is active, and the twelfth, the third of the pause between the
  characters, takes the phase to 3, beyond \<open>character_pause_len\<close>.
\<close>

theorem cursor_inv_spec_counterexample:
  "map_option (cursor_inv_spec messages) (steps messages 11 init_state) = Some True \<and>
   map_option (\<lambda>s. uint (phase s)) (steps messages 12 init_state) = Some 3 \<and>
   map_option (active_len messages) (steps messages 12 init_state) = Some 2 \<and>
   map_option (cursor_inv_spec messages) (steps messages 12 init_state) = Some False"
  by code_simp

subsection \<open>One playback of the first message\<close>

text \<open>
  C2, as amended. From the initial state (message 0, the string ss) one playback takes 32
  ticks. The light patterns are, in order: 1, off, 1, off, 1, off for the three dots of the
  first s, off, off for the pause between characters, the same eight for the second s, and
  off four times for the pause between messages. \<open>message_ended\<close> is 0 after each of the
  first 31 ticks and 1 after tick 32; the last pattern is shown at tick 30, and ticks 31 and
  32 show nothing.
\<close>

theorem playback_ss:
  "map message_ended (run_trace messages 32 init_state) = replicate 31 0 @ [1] \<and>
   map_option led_calls (steps messages 32 init_state) =
     Some [1, 0, 1, 0, 1, 0, 0, 0, 1, 0, 1, 0, 1, 0, 0, 0, 0, 0, 0, 0] \<and>
   map_option led_calls (steps messages 30 init_state) =
     Some [1, 0, 1, 0, 1, 0, 0, 0, 1, 0, 1, 0, 1, 0, 0, 0, 0, 0, 0, 0]"
  by code_simp

text \<open>
  C2 as stated fails: the second pattern of the playback is off, not pattern 1, and the
  patterns of the whole playback are not the fourteen of the claim.
\<close>

theorem playback_ss_counterexample:
  "map_option led_calls (steps messages 2 init_state) = Some [1, 0] \<and>
   map_option led_calls (steps messages 32 init_state) \<noteq>
     Some [1, 1, 0, 0, 1, 1, 0, 0, 0, 0, 0, 0, 0, 0] \<and>
   map_option message_ended (steps messages 32 init_state) = Some 1 \<and>
   map message_ended (run_trace messages 31 init_state) = replicate 31 0"
  by code_simp

subsection \<open>The empty message\<close>

lemma steps_numerals:
  "steps msgs 1 s = steps msgs (Suc 0) s"
  "steps msgs 2 s = steps msgs (Suc (Suc 0)) s"
  "steps msgs 3 s = steps msgs (Suc (Suc (Suc 0))) s"
  "steps msgs 4 s = steps msgs (Suc (Suc (Suc (Suc 0)))) s"
  "steps msgs 5 s = steps msgs (Suc (Suc (Suc (Suc (Suc 0))))) s"
  "steps msgs 6 s = steps msgs (Suc (Suc (Suc (Suc (Suc (Suc 0)))))) s"
  by (simp_all add: eval_nat_numeral)

lemma empty_message_tick:
  assumes "c_index msgs (unat (message_index s)) = Some []" and "character_index s = 0"
  shows "signal_message msgs s =
     (if uint (phase s) \<le> 4
      then Some ((word_pause (uint (phase s)) s)\<lparr>phase := phase s + 1\<rparr>)
      else Some (s\<lparr>message_ended := 1, phase := 0, symbol_index := 0, character_index := 0\<rparr>))"
proof -
  have "current_character msgs s = Some NUL"
    using assms by (simp add: current_character_def c_index_def c_str_def)
  then show ?thesis
    by (rule word_pause_step)
qed

lemma empty_message_pause:
  assumes "c_index msgs (unat (message_index s)) = Some []" and "character_index s = 0"
    and "uint (phase s) \<le> 4"
  shows "\<exists>s'. signal_message msgs s = Some s' \<and>
     s' = (word_pause (uint (phase s)) s)\<lparr>phase := phase s + 1\<rparr> \<and>
     c_index msgs (unat (message_index s')) = Some [] \<and> character_index s' = 0 \<and>
     message_ended s' = message_ended s"
  using assms empty_message_tick [OF assms(1,2)]
  by (simp add: word_pause_def set_leds_def)

text \<open>
  C5, as amended. At the start of an empty message the first five steps leave
  \<open>message_ended\<close> as it was and the sixth step sets it to 1; the six steps call \<open>set_leds\<close>
  four times, each time with both LEDs off.
\<close>

theorem empty_message:
  assumes "c_index msgs (unat (message_index s)) = Some []"
    and "character_index s = 0" and "phase s = 0"
  shows "map (\<lambda>n. map_option message_ended (steps msgs n s)) [1, 2, 3, 4, 5]
      = [Some (message_ended s), Some (message_ended s), Some (message_ended s),
         Some (message_ended s), Some (message_ended s)] \<and>
    map_option message_ended (steps msgs 6 s) = Some 1 \<and>
    map_option led_calls (steps msgs 6 s) = Some (led_calls s @ [0, 0, 0, 0])"
proof -
  from assms obtain s1 where t1: "signal_message msgs s = Some s1"
    and s1: "s1 = (word_pause 0 s)\<lparr>phase := 1\<rparr>"
    and f1: "c_index msgs (unat (message_index s1)) = Some []" "character_index s1 = 0"
    and e1: "message_ended s1 = message_ended s"
    using empty_message_pause [of msgs s] by auto
  have p1: "phase s1 = 1" "led_calls s1 = led_calls s @ [0]"
    by (simp_all add: s1 word_pause_def set_leds_def)
  from f1 p1 obtain s2 where t2: "signal_message msgs s1 = Some s2"
    and s2: "s2 = (word_pause 1 s1)\<lparr>phase := 2\<rparr>"
    and f2: "c_index msgs (unat (message_index s2)) = Some []" "character_index s2 = 0"
    and e2: "message_ended s2 = message_ended s1"
    using empty_message_pause [of msgs s1] by auto
  have p2: "phase s2 = 2" "led_calls s2 = led_calls s @ [0, 0]"
    by (simp_all add: s2 p1 word_pause_def set_leds_def)
  from f2 p2 obtain s3 where t3: "signal_message msgs s2 = Some s3"
    and s3: "s3 = (word_pause 2 s2)\<lparr>phase := 3\<rparr>"
    and f3: "c_index msgs (unat (message_index s3)) = Some []" "character_index s3 = 0"
    and e3: "message_ended s3 = message_ended s2"
    using empty_message_pause [of msgs s2] by auto
  have p3: "phase s3 = 3" "led_calls s3 = led_calls s @ [0, 0, 0]"
    by (simp_all add: s3 p2 word_pause_def set_leds_def)
  from f3 p3 obtain s4 where t4: "signal_message msgs s3 = Some s4"
    and s4: "s4 = (word_pause 3 s3)\<lparr>phase := 4\<rparr>"
    and f4: "c_index msgs (unat (message_index s4)) = Some []" "character_index s4 = 0"
    and e4: "message_ended s4 = message_ended s3"
    using empty_message_pause [of msgs s3] by auto
  have p4: "phase s4 = 4" "led_calls s4 = led_calls s @ [0, 0, 0, 0]"
    by (simp_all add: s4 p3 word_pause_def set_leds_def)
  from f4 p4 obtain s5 where t5: "signal_message msgs s4 = Some s5"
    and s5: "s5 = (word_pause 4 s4)\<lparr>phase := 5\<rparr>"
    and f5: "c_index msgs (unat (message_index s5)) = Some []" "character_index s5 = 0"
    and e5: "message_ended s5 = message_ended s4"
    using empty_message_pause [of msgs s4] by auto
  have p5: "phase s5 = 5" "led_calls s5 = led_calls s @ [0, 0, 0, 0]"
    by (simp_all add: s5 p4 word_pause_def)
  define s6 where "s6 = s5\<lparr>message_ended := 1, phase := 0, symbol_index := 0,
    character_index := 0\<rparr>"
  have t6: "signal_message msgs s5 = Some s6"
    using empty_message_tick [OF f5] p5 by (simp add: s6_def)
  have run: "steps msgs 1 s = Some s1" "steps msgs 2 s = Some s2" "steps msgs 3 s = Some s3"
    "steps msgs 4 s = Some s4" "steps msgs 5 s = Some s5" "steps msgs 6 s = Some s6"
    by (simp_all add: steps_numerals t1 t2 t3 t4 t5 t6)
  have "led_calls s6 = led_calls s @ [0, 0, 0, 0]" and "message_ended s6 = 1"
    by (simp_all add: s6_def p5)
  with run e1 e2 e3 e4 e5 show ?thesis
    by simp
qed

theorem empty_message_witness:
  "c_index [[] :: string] (unat (message_index init_state)) = Some [] \<and>
   character_index init_state = 0 \<and> phase init_state = 0 \<and>
   map (\<lambda>n. map_option message_ended (steps [[] :: string] n init_state)) [1, 2, 3, 4, 5]
      = [Some 0, Some 0, Some 0, Some 0, Some 0] \<and>
   map_option message_ended (steps [[] :: string] 6 init_state) = Some 1 \<and>
   map_option led_calls (steps [[] :: string] 6 init_state) = Some [0, 0, 0, 0]"
proof -
  have a: "c_index [[] :: string] (unat (message_index init_state)) = Some []"
    and b: "character_index init_state = 0" and c: "phase init_state = 0"
    by (simp_all add: init_state_def c_index_def)
  have m: "message_ended init_state = 0" and l: "led_calls init_state = []"
    by (simp_all add: init_state_def)
  from empty_message [OF a b c] have
    "map (\<lambda>n. map_option message_ended (steps [[] :: string] n init_state)) [1, 2, 3, 4, 5]
      = [Some 0, Some 0, Some 0, Some 0, Some 0] \<and>
     map_option message_ended (steps [[] :: string] 6 init_state) = Some 1 \<and>
     map_option led_calls (steps [[] :: string] 6 init_state) = Some [0, 0, 0, 0]"
    unfolding m l by simp
  with a b c show ?thesis
    by blast
qed

text \<open>
  C5 as stated fails: on the one-element list of the empty message the first step shows
  both LEDs off and leaves \<open>message_ended\<close> at 0, where it still is after five steps.
\<close>

theorem empty_message_counterexample:
  "c_index [[] :: string] (unat (message_index init_state)) = Some [] \<and>
   character_index init_state = 0 \<and> phase init_state = 0 \<and>
   map_option message_ended (signal_message [[] :: string] init_state) = Some 0 \<and>
   map_option led_calls (signal_message [[] :: string] init_state) = Some [0] \<and>
   map_option message_ended (steps [[] :: string] 5 init_state) = Some 0"
  by code_simp

subsection \<open>Changing the message\<close>

lemma c_rem_nonneg: "0 \<le> a \<Longrightarrow> 0 < b \<Longrightarrow> c_rem a b = a mod b"
  by (cases "a = 0") (simp_all add: c_rem_def minus_mult_div_eq_mod)

lemma normalize_message_index_unat: "unat (normalize_message_index index) = unat index mod 3"
proof -
  have "c_rem (uint index) (sint num_messages) = uint index mod 3"
    by (simp add: num_messages_def c_rem_nonneg)
  moreover have "uint index mod 3 < 2 ^ 16"
    using pos_mod_bound [of 3 "uint index"] by simp
  ultimately have "uint (normalize_message_index index) = uint index mod 3"
    by (simp add: normalize_message_index_def uint_word_of_int)
  then have "int (unat (normalize_message_index index)) = int (unat index mod 3)"
    by (simp add: zmod_int)
  then show ?thesis
    by (simp only: of_nat_eq_iff)
qed

lemma normalize_message_index_less: "unat (normalize_message_index index) < length messages"
  by (simp add: normalize_message_index_unat messages_def)

lemma small_take_bit: "n < 3 \<Longrightarrow> take_bit 8 n = n" "n < 3 \<Longrightarrow> take_bit 16 n = n" for n :: nat
  by (simp_all add: take_bit_nat_eq_self)

lemma ucast_8_16: "unat (ucast (n :: 8 word) :: 16 word) = unat n"
proof -
  have "unat n < 2 ^ 8"
    using unsigned_less [of n] by simp
  then have "unat n < 2 ^ 16"
    by simp
  then show ?thesis
    by (simp add: unsigned_ucast_eq take_bit_nat_eq_self)
qed

lemma stored_index:
  "unat (ucast (normalize_message_index (ucast (n :: 8 word))) :: 8 word) = unat n mod 3"
  "unat (ucast (ucast (normalize_message_index (ucast (n :: 8 word))) :: 8 word) :: 16 word)
     = unat n mod 3"
proof -
  have a: "unat (normalize_message_index (ucast n)) = unat n mod 3"
    by (simp only: normalize_message_index_unat ucast_8_16)
  have b: "unat n mod 3 < 3" by simp
  show c: "unat (ucast (normalize_message_index (ucast n)) :: 8 word) = unat n mod 3"
    using small_take_bit(1) [OF b] by (simp add: unsigned_ucast_eq a)
  show "unat (ucast (ucast (normalize_message_index (ucast n)) :: 8 word) :: 16 word) = unat n mod 3"
    by (simp only: ucast_8_16 c)
qed

lemma ended_sint: "(sint (e :: 16 word) = 1) = (e = 1)"
  using word_eq_iff_signed [of e 1, where ?'a = int] by auto

lemma stored_index_word:
  "ucast (ucast (normalize_message_index (ucast (n :: 8 word))) :: 8 word)
     = normalize_message_index (ucast n)"
  by (simp only: word_unat_eq_iff stored_index normalize_message_index_unat ucast_8_16)

lemma change_message_eq:
  "change_message s =
     (if uint (next_message_index s) \<noteq> uint (message_index s) \<and> message_ended s = 1
      then s\<lparr>next_message_index := ucast (normalize_message_index (ucast (next_message_index s))),
             message_index := normalize_message_index (ucast (next_message_index s)),
             message_ended := 0, button_pressed := 0\<rparr>
      else s)"
  by (simp add: change_message_def Let_def ended_sint stored_index_word)

lemma selection_inv_test:
  assumes "selection_inv s"
  shows "(uint (next_message_index s) \<noteq> uint (message_index s)) =
         (normalize_message_index (ucast (next_message_index s)) \<noteq> message_index s)"
proof -
  have raw: "(uint (next_message_index s) \<noteq> uint (message_index s)) =
      (unat (next_message_index s) \<noteq> unat (message_index s))"
    by (simp add: uint_nat del: of_nat_unat)
  have norm: "(normalize_message_index (ucast (next_message_index s)) \<noteq> message_index s) =
      (unat (next_message_index s) mod 3 \<noteq> unat (message_index s))"
    by (simp only: word_unat_eq_iff normalize_message_index_unat ucast_8_16)
  from assms have "unat (message_index s) < 3"
    and "unat (next_message_index s) = unat (message_index s) \<or>
         unat (next_message_index s) = unat (message_index s) + 1 \<or>
         unat (next_message_index s) = unat (message_index s) + 2"
    by (auto simp: selection_inv_def split: if_splits)
  then have "(unat (next_message_index s) \<noteq> unat (message_index s)) =
      (unat (next_message_index s) mod 3 \<noteq> unat (message_index s))"
    by presburger
  with raw norm show ?thesis
    by simp
qed

subsection \<open>The invariant of the program\<close>

lemma signal_message_selection:
  assumes "signal_message msgs s = Some s'"
  shows "message_index s' = message_index s \<and> next_message_index s' = next_message_index s \<and>
    button_pressed s' = button_pressed s"
  using assms
  by (auto simp: signal_message_def next_symbol_def next_character_def Let_def signal_dot_def
      signal_dash_def word_pause_def character_pause_def set_leds_def
      split: option.splits if_splits)

lemma signal_message_ended:
  assumes "signal_message msgs s = Some s'"
  shows "message_ended s' = 0 \<or>
    message_ended s' = message_ended s \<and> character_index s' = character_index s \<and>
      symbol_index s' = symbol_index s \<or>
    message_ended s' = 1 \<and> character_index s' = 0 \<and> symbol_index s' = 0"
  using assms
  by (auto simp: signal_message_def next_symbol_def next_character_def Let_def signal_dot_def
      signal_dash_def word_pause_def character_pause_def set_leds_def
      split: option.splits if_splits)

lemma program_inv_tick:
  assumes "program_inv s"
  shows "\<exists>s'. signal_message messages s = Some s' \<and> program_inv s'"
proof -
  from assms have "cursor_ok messages s"
    by (simp add: program_inv_def)
  then obtain s' where step: "signal_message messages s = Some s'" and "cursor_inv messages s'"
    using cursor_ok_step by blast
  then have ok: "cursor_ok messages s'"
    by (simp add: cursor_inv_def)
  from signal_message_selection [OF step] assms have sel: "selection_inv s'"
    by (auto simp: program_inv_def selection_inv_def)
  from signal_message_ended [OF step] assms
  have "message_ended s' = 0 \<or>
      message_ended s' = 1 \<and> character_index s' = 0 \<and> symbol_index s' = 0"
    by (auto simp: program_inv_def)
  with step ok sel show ?thesis
    by (simp add: program_inv_def)
qed

lemma press_eq:
  "press Button0 s =
     (if button_pressed s = 0
      then s\<lparr>next_message_index := next_message_index s + 1, button_pressed := 1\<rparr> else s)"
  "press Button1 s =
     (if button_pressed s = 0
      then s\<lparr>next_message_index := next_message_index s + 2, button_pressed := 1\<rparr> else s)"
  by (simp_all add: gpioButtonFxn0_def gpioButtonFxn1_def num_messages_def)

lemma small_index_add:
  assumes "unat (n :: 8 word) < 3"
  shows "unat (n + 1) = unat n + 1" and "unat (n + 2) = unat n + 2"
proof -
  from assms have "unat n + unat (1 :: 8 word) < 2 ^ LENGTH(8)"
    and "unat n + unat (2 :: 8 word) < 2 ^ LENGTH(8)"
    by simp_all
  then show "unat (n + 1) = unat n + 1" and "unat (n + 2) = unat n + 2"
    by (simp_all only: unat_add_lem [THEN iffD1]) simp_all
qed

lemma press_selection_inv:
  assumes "selection_inv s"
  shows "selection_inv (press b s)"
proof (cases "button_pressed s = 0")
  case True
  with assms have eq: "unat (next_message_index s) = unat (message_index s)"
    and less: "unat (message_index s) < 3"
    by (simp_all add: selection_inv_def)
  then have "unat (next_message_index s) < 3"
    by simp
  from small_index_add [OF this] True eq less show ?thesis
    by (cases b) (simp_all add: selection_inv_def press_eq del: press.simps)
next
  case False
  with assms show ?thesis
    by (simp add: press_latched)
qed

lemma program_inv_press:
  assumes "program_inv s"
  shows "program_inv (press b s)"
proof -
  have same: "message_index (press b s) = message_index s"
    "character_index (press b s) = character_index s"
    "symbol_index (press b s) = symbol_index s"
    "message_ended (press b s) = message_ended s"
    by (cases b; simp add: gpioButtonFxn0_def gpioButtonFxn1_def)+
  from assms press_selection_inv [of s b] show ?thesis
    by (simp add: program_inv_def same same_cursor(3) [OF same(1,2,3)])
qed

lemma program_inv_change:
  assumes "program_inv s"
  shows "program_inv (change_message s)"
proof (cases "uint (next_message_index s) \<noteq> uint (message_index s) \<and> message_ended s = 1")
  case True
  with assms have start: "character_index s = 0" "symbol_index s = 0"
    by (auto simp: program_inv_def)
  let ?n = "normalize_message_index (ucast (next_message_index s))"
  have less: "unat ?n < 3"
    by (simp add: normalize_message_index_unat)
  have eq: "change_message s =
      s\<lparr>next_message_index := ucast ?n, message_index := ?n, message_ended := 0,
        button_pressed := 0\<rparr>"
    using True by (simp add: change_message_eq)
  have "cursor_ok messages (change_message s)"
    using less start by (simp add: eq cursor_ok_def messages_def)
  moreover have "selection_inv (change_message s)"
    using less by (simp add: eq selection_inv_def stored_index(1) normalize_message_index_unat
        ucast_8_16)
  ultimately show ?thesis
    by (simp add: program_inv_def eq)
next
  case False
  with assms show ?thesis
    by (auto simp: change_message_eq)
qed

lemma program_inv_run:
  assumes "program_inv s"
  shows "\<exists>s'. run evs s = Some s' \<and> program_inv s'"
  using assms
proof (induction evs arbitrary: s)
  case Nil
  then show ?case by simp
next
  case (Cons e evs)
  have "\<exists>s1. occur e s = Some s1 \<and> program_inv s1"
  proof (cases e)
    case Tick
    with Cons.prems show ?thesis by (simp add: program_inv_tick)
  next
    case (Press b)
    with Cons.prems show ?thesis by (simp add: program_inv_press)
  next
    case Change
    with Cons.prems show ?thesis by (simp add: program_inv_change)
  qed
  then obtain s1 where "occur e s = Some s1" and "program_inv s1"
    by blast
  with Cons.IH [of s1] show ?case
    by simp
qed

lemma program_inv_init: "program_inv init_state"
  by code_simp

subsection \<open>When the message changes\<close>

lemma change_message_reachable:
  assumes "selection_inv s"
  shows "change_message s =
     (if normalize_message_index (ucast (next_message_index s)) \<noteq> message_index s \<and>
         message_ended s = 1
      then s\<lparr>next_message_index := ucast (normalize_message_index (ucast (next_message_index s))),
             message_index := normalize_message_index (ucast (next_message_index s)),
             message_ended := 0, button_pressed := 0\<rparr>
      else s)"
  using selection_inv_test [OF assms] by (simp add: change_message_eq)

text \<open>
  C4. In every state the program reaches, by whatever ticks, button presses and checks of the
  main loop, the check changes the message if and only if the requested index normalized
  modulo 3 differs from \<open>message_index\<close> and \<open>message_ended\<close> is 1. When it does, it clears
  the latch (and \<open>message_ended\<close>) and the new \<open>message_index\<close> is the normalized requested
  index, which it also stores back in \<open>next_message_index\<close>; in every other case the state is
  unchanged. The code compares the requested index as it stands; in the states the program
  reaches the requested index is the index of the message plus 0, 1 or 2, and there the
  two tests agree (\<open>selection_inv_test\<close>).
\<close>

theorem change_message_applies:
  "(\<exists>s'. run evs init_state = Some s') \<and>
   (run evs init_state = Some s \<longrightarrow>
      (change_message s \<noteq> s) =
        (normalize_message_index (ucast (next_message_index s)) \<noteq> message_index s \<and>
         message_ended s = 1) \<and>
      change_message s =
        (if normalize_message_index (ucast (next_message_index s)) \<noteq> message_index s \<and>
            message_ended s = 1
         then s\<lparr>next_message_index :=
                  ucast (normalize_message_index (ucast (next_message_index s))),
                message_index := normalize_message_index (ucast (next_message_index s)),
                message_ended := 0, button_pressed := 0\<rparr>
         else s) \<and>
      (change_message s \<noteq> s \<longrightarrow>
         button_pressed (change_message s) = 0 \<and>
         message_index (change_message s) =
           normalize_message_index (ucast (next_message_index s)) \<and>
         unat (message_index (change_message s)) = unat (next_message_index s) mod 3))"
proof (intro conjI impI)
  from program_inv_run [OF program_inv_init, of evs]
  obtain s' where run: "run evs init_state = Some s'" and inv: "program_inv s'"
    by blast
  then show "\<exists>s'. run evs init_state = Some s'"
    by blast
  assume "run evs init_state = Some s"
  with run inv have "selection_inv s"
    by (simp add: program_inv_def)
  note eq = change_message_reachable [OF this]
  show changed: "(change_message s \<noteq> s) =
      (normalize_message_index (ucast (next_message_index s)) \<noteq> message_index s \<and>
       message_ended s = 1)"
  proof (cases "normalize_message_index (ucast (next_message_index s)) \<noteq> message_index s \<and>
       message_ended s = 1")
    case True
    then have "message_ended (change_message s) \<noteq> message_ended s"
      by (simp add: eq)
    with True show ?thesis
      by auto
  next
    case False
    then show ?thesis
      by (auto simp: eq)
  qed
  show "change_message s =
        (if normalize_message_index (ucast (next_message_index s)) \<noteq> message_index s \<and>
            message_ended s = 1
         then s\<lparr>next_message_index :=
                  ucast (normalize_message_index (ucast (next_message_index s))),
                message_index := normalize_message_index (ucast (next_message_index s)),
                message_ended := 0, button_pressed := 0\<rparr>
         else s)"
    by (rule eq)
  assume "change_message s \<noteq> s"
  with changed have fires:
    "normalize_message_index (ucast (next_message_index s)) \<noteq> message_index s \<and>
     message_ended s = 1"
    by simp
  then show "button_pressed (change_message s) = 0"
    and "message_index (change_message s) =
           normalize_message_index (ucast (next_message_index s))"
    and "unat (message_index (change_message s)) = unat (next_message_index s) mod 3"
    by (simp_all add: eq normalize_message_index_unat ucast_8_16)
qed

theorem change_message_applies_witness:
  "run (replicate 32 Tick @ [Press Button0]) init_state \<noteq> None \<and>
   map_option (\<lambda>s. (next_message_index s, message_index s, message_ended s, button_pressed s))
     (run (replicate 32 Tick @ [Press Button0]) init_state) = Some (1, 0, 1, 1) \<and>
   map_option (\<lambda>s. let s' = change_message s in
       (next_message_index s', message_index s', message_ended s', button_pressed s'))
     (run (replicate 32 Tick @ [Press Button0]) init_state) = Some (1, 1, 0, 0) \<and>
   run [Press Button0] init_state \<noteq> None \<and>
   map_option (\<lambda>s. change_message s = s) (run [Press Button0] init_state) = Some True"
proof -
  let ?E = "replicate 32 Tick @ [Press Button0]"
  from change_message_applies [of ?E] obtain s where run: "run ?E init_state = Some s"
    by blast
  have "map_option (\<lambda>s. (next_message_index s, message_index s, message_ended s, button_pressed s))
     (run ?E init_state) = Some (1, 0, 1, 1)"
    by code_simp
  with run have f: "next_message_index s = 1" "message_index s = 0" "message_ended s = 1"
    "button_pressed s = 1"
    by simp_all
  have n: "normalize_message_index (ucast (1 :: 8 word)) = 1"
    by code_simp
  from change_message_applies [of ?E s] run f n
  have a: "change_message s = s\<lparr>next_message_index := 1, message_index := 1,
      message_ended := 0, button_pressed := 0\<rparr>"
    by simp
  from change_message_applies [of "[Press Button0]"] obtain t where run': "run [Press Button0] init_state = Some t"
    by blast
  have "map_option message_ended (run [Press Button0] init_state) = Some 0"
    by code_simp
  with run' have "message_ended t = 0"
    by simp
  with change_message_applies [of "[Press Button0]" t] run' have b: "change_message t = t"
    by simp
  show ?thesis
    unfolding run run' by (simp add: f a b)
qed

subsection \<open>The index of the message stays in bounds\<close>

text \<open>
  C9. \<open>normalize_message_index\<close> returns an index of the message array for every argument;
  \<open>message_index\<close> starts at 0, the timer tick and the button handlers leave it as it is and
  the main loop only ever stores a result of \<open>normalize_message_index\<close> in it. Whatever
  ticks, presses and checks of the main loop happen, in whatever order, every read of the
  tick is defined and \<open>message_index\<close> stays an index of the message array.
\<close>

theorem message_index_in_bounds:
  "(\<forall>index. unat (normalize_message_index index) < length messages) \<and>
   message_index init_state = 0 \<and>
   (\<forall>evs. \<exists>s. run evs init_state = Some s \<and> unat (message_index s) < length messages \<and>
      c_index messages (unat (message_index s)) \<noteq> None) \<and>
   (\<forall>msgs s s'. signal_message msgs s = Some s' \<longrightarrow> message_index s' = message_index s) \<and>
   (\<forall>b s. message_index (press b s) = message_index s) \<and>
   (\<forall>s. message_index (change_message s) = message_index s \<or>
        message_index (change_message s) = normalize_message_index (ucast (next_message_index s)))"
proof (intro conjI allI impI)
  show "unat (normalize_message_index index) < length messages" for index
    by (rule normalize_message_index_less)
  show "message_index init_state = 0"
    by (simp add: init_state_def)
  show "\<exists>s. run evs init_state = Some s \<and> unat (message_index s) < length messages \<and>
      c_index messages (unat (message_index s)) \<noteq> None" for evs
    using program_inv_run [OF program_inv_init, of evs]
    by (auto simp: program_inv_def cursor_ok_def c_index_def)
  show "message_index s' = message_index s" if "signal_message msgs s = Some s'" for msgs s s'
    using signal_message_selection [OF that] by simp
  show "message_index (press b s) = message_index s" for b s
    by (cases b) (simp_all add: gpioButtonFxn0_def gpioButtonFxn1_def)
  show "message_index (change_message s) = message_index s \<or>
        message_index (change_message s) = normalize_message_index (ucast (next_message_index s))"
    for s
    by (simp add: change_message_eq)
qed

theorem message_index_in_bounds_witness:
  "signal_message messages init_state \<noteq> None \<and>
   map_option message_index (signal_message messages init_state) = Some 0 \<and>
   map_option message_index (run [Press Button1, Change, Tick] (init_state\<lparr>message_ended := 1\<rparr>))
     = Some 2"
proof -
  obtain s' where a: "signal_message messages init_state = Some s'"
    using program_inv_tick [OF program_inv_init] by blast
  with message_index_in_bounds have "message_index s' = message_index init_state"
    by blast
  with a have b: "map_option message_index (signal_message messages init_state) = Some 0"
    by (simp add: init_state_def)
  have "map_option message_index
      (run [Press Button1, Change, Tick] (init_state\<lparr>message_ended := 1\<rparr>)) = Some 2"
    by code_simp
  with a b show ?thesis
    by simp
qed

subsection \<open>One traversal of a message\<close>

lemma steps_add:
  "steps msgs (a + b) s = (case steps msgs a s of None \<Rightarrow> None | Some s1 \<Rightarrow> steps msgs b s1)"
  by (induction a arbitrary: s) (simp_all split: option.splits)

lemma run_trace_add:
  "steps msgs a s = Some s1 \<Longrightarrow> run_trace msgs (a + b) s = run_trace msgs a s @ run_trace msgs b s1"
  by (induction a arbitrary: s) (simp_all split: option.splits)

lemma quiet_0: "quiet msgs 0 s s"
  by (simp add: quiet_def)

lemma quiet_1: "signal_message msgs s = Some s' \<Longrightarrow> message_ended s' = 0 \<Longrightarrow> quiet msgs (Suc 0) s s'"
  by (simp add: quiet_def)

lemma quiet_add:
  assumes "quiet msgs a s s1" and "quiet msgs b s1 s2"
  shows "quiet msgs (a + b) s s2"
  using assms by (simp add: quiet_def steps_add run_trace_add replicate_add)

lemma quiet_Suc:
  assumes "signal_message msgs s = Some s1" "message_ended s1 = 0" and "quiet msgs n s1 s2"
  shows "quiet msgs (Suc n) s s2"
  using quiet_add [OF quiet_1 [OF assms(1,2)] assms(3)] by simp

lemma unat_phase_succ:
  assumes "unat (p :: 16 word) < 5"
  shows "unat (p + 1) = unat p + 1"
proof -
  from assms have "unat p + unat (1 :: 16 word) < 2 ^ LENGTH(16)"
    by simp
  then show ?thesis
    by (simp only: unat_add_lem [THEN iffD1]) simp
qed

lemma symbol_loop:
  assumes "current_character msgs s = Some c" "c \<noteq> NUL"
    and "current_symbol msgs s = Some y" "y \<noteq> NUL"
    and "unat (phase s) + n = symbol_len y"
  shows "\<exists>s'. quiet msgs (Suc n) s s' \<and> message_index s' = message_index s \<and>
    character_index s' = character_index s \<and> symbol_index s' = symbol_index s + 1 \<and>
    phase s' = 0"
  using assms
proof (induction n arbitrary: s)
  case 0
  then have "\<not> uint (phase s) < (if y = CHR ''.'' then 2 else 4)"
    by (auto simp: symbol_len_def dot_len_def dash_len_def word_pause_len_def uint_nat
        simp del: of_nat_unat)
  with symbol_step [OF "0.prems"(1-4)] 
  have "signal_message msgs s =
      Some (s\<lparr>message_ended := 0, symbol_index := symbol_index s + 1, phase := 0\<rparr>)"
    by (auto simp: Let_def split: if_splits)
  then show ?case
    by (auto intro!: quiet_1 exI)
next
  case (Suc n)
  define s1 where "s1 =
     (if y = CHR ''.'' then signal_dot (phase s) (s\<lparr>message_ended := 0\<rparr>)
      else if y = CHR ''-'' then signal_dash (uint (phase s)) (s\<lparr>message_ended := 0\<rparr>)
      else word_pause (uint (phase s)) (s\<lparr>message_ended := 0\<rparr>))\<lparr>phase := phase s + 1\<rparr>"
  from Suc.prems(5) have less: "unat (phase s) < symbol_len y"
    by simp
  then have "uint (phase s) < (if y = CHR ''.'' then 2 else 4)"
    by (auto simp: symbol_len_def dot_len_def dash_len_def word_pause_len_def uint_nat
        simp del: of_nat_unat split: if_splits)
  with symbol_step [OF Suc.prems(1-4)] have step: "signal_message msgs s = Some s1"
    by (auto simp: Let_def s1_def split: if_splits)
  have same: "message_index s1 = message_index s" "character_index s1 = character_index s"
    "symbol_index s1 = symbol_index s"
    by (simp_all add: s1_def signal_dot_def signal_dash_def word_pause_def set_leds_cursor)
  have ended: "message_ended s1 = 0"
    by (simp add: s1_def signal_dot_def signal_dash_def word_pause_def set_leds_def)
  from less have "unat (phase s) < 5"
    by (simp add: symbol_len_def dot_len_def dash_len_def word_pause_len_def split: if_splits)
  then have "unat (phase s1) = unat (phase s) + 1"
    by (simp add: s1_def unat_phase_succ)
  with Suc.prems(5) have "unat (phase s1) + n = symbol_len y"
    by simp
  from Suc.IH [OF _ Suc.prems(2) _ Suc.prems(4) this] Suc.prems(1,3)
  obtain s' where "quiet msgs (Suc n) s1 s'" "message_index s' = message_index s1"
    "character_index s' = character_index s1" "symbol_index s' = symbol_index s1 + 1"
    "phase s' = 0"
    by (auto simp: same_cursor(1,2) [OF same])
  with quiet_Suc [OF step ended] same show ?case
    by auto
qed

lemma get_morse_no_NUL: "NUL \<notin> set (get_morse c)"
  by (simp add: get_morse_def NUL_def)

lemma get_morse_short: "length (get_morse c) \<le> 4"
  by (simp add: get_morse_def)

lemma unat_index_succ:
  assumes "unat (i :: 16 word) < 65535"
  shows "unat (i + 1) = unat i + 1"
proof -
  from assms have "unat i + unat (1 :: 16 word) < 2 ^ LENGTH(16)"
    by simp
  then show ?thesis
    by (simp only: unat_add_lem [THEN iffD1]) simp
qed

lemma drop_Cons_nth:
  assumes "drop k xs = y # ys"
  shows "k < length xs" and "xs ! k = y" and "drop (Suc k) xs = ys"
proof -
  show less: "k < length xs"
    using assms by (cases "k < length xs") simp_all
  from Cons_nth_drop_Suc [OF less] assms show "xs ! k = y" and "drop (Suc k) xs = ys"
    by simp_all
qed

lemma same_character:
  assumes "message_index s' = message_index s" and "character_index s' = character_index s"
  shows "current_character msgs s' = current_character msgs s"
  using assms by (simp add: current_character_def cong: option.case_cong)

lemma current_symbol_inside:
  assumes "current_character msgs s = Some c" and "unat (symbol_index s) < length (get_morse c)"
  shows "current_symbol msgs s = Some (get_morse c ! unat (symbol_index s))"
  using assms by (simp add: current_symbol_def c_index_def c_str_def nth_append)

lemma current_symbol_end:
  assumes "current_character msgs s = Some c" and "unat (symbol_index s) = length (get_morse c)"
  shows "current_symbol msgs s = Some NUL"
  using assms by (simp add: current_symbol_def c_index_def c_str_def)

lemma symbols_loop:
  assumes "current_character msgs s = Some c" "c \<noteq> NUL" "phase s = 0"
    and "unat (symbol_index s) \<le> length (get_morse c)"
    and "drop (unat (symbol_index s)) (get_morse c) = ys"
  shows "\<exists>s'. quiet msgs (sum_list (map symbol_ticks ys)) s s' \<and>
    message_index s' = message_index s \<and> character_index s' = character_index s \<and>
    unat (symbol_index s') = length (get_morse c) \<and> phase s' = 0"
  using assms
proof (induction ys arbitrary: s)
  case Nil
  then have "unat (symbol_index s) = length (get_morse c)"
    by simp
  with Nil.prems(3) quiet_0 [of msgs s] show ?case
    by auto
next
  case (Cons y ys)
  note d = drop_Cons_nth [OF Cons.prems(5)]
  have y: "current_symbol msgs s = Some y"
    using current_symbol_inside [OF Cons.prems(1) d(1)] d(2) by simp
  have "y \<in> set (get_morse c)"
    using d(1,2) nth_mem by blast
  with get_morse_no_NUL [of c] have "y \<noteq> NUL"
    by auto
  from symbol_loop [OF Cons.prems(1,2) y this, of "symbol_len y"] Cons.prems(3)
  obtain s1 where q1: "quiet msgs (symbol_ticks y) s s1"
    and same: "message_index s1 = message_index s" "character_index s1 = character_index s"
    and si: "symbol_index s1 = symbol_index s + 1" and ph: "phase s1 = 0"
    by (auto simp: symbol_ticks_def)
  have c1: "current_character msgs s1 = Some c"
    using Cons.prems(1) same_character [OF same] by simp
  from d(1) get_morse_short [of c] have "unat (symbol_index s) < 65535"
    by simp
  then have k: "unat (symbol_index s1) = Suc (unat (symbol_index s))"
    by (simp add: si unat_index_succ)
  with d(1,3) have "unat (symbol_index s1) \<le> length (get_morse c)"
    and "drop (unat (symbol_index s1)) (get_morse c) = ys"
    by simp_all
  from Cons.IH [OF c1 Cons.prems(2) ph this]
  obtain s' where "quiet msgs (sum_list (map symbol_ticks ys)) s1 s'"
    "message_index s' = message_index s1" "character_index s' = character_index s1"
    "unat (symbol_index s') = length (get_morse c)" "phase s' = 0"
    by blast
  with quiet_add [OF q1] same show ?case
    by auto
qed

lemma character_pause_loop:
  assumes "current_character msgs s = Some c" "c \<noteq> NUL"
    and "current_symbol msgs s = Some NUL"
    and "unat (phase s) + n = 3"
  shows "\<exists>s'. quiet msgs (Suc n) s s' \<and> message_index s' = message_index s \<and>
    character_index s' = character_index s + 1 \<and> symbol_index s' = 0 \<and> phase s' = 0"
  using assms
proof (induction n arbitrary: s)
  case 0
  then have "\<not> uint (phase s) \<le> 2"
    by (simp add: uint_nat del: of_nat_unat)
  with character_pause_step [OF "0.prems"(1-3)]
  have "signal_message msgs s =
      Some (s\<lparr>message_ended := 0, character_index := character_index s + 1,
              symbol_index := 0, phase := 0\<rparr>)"
    by (simp add: Let_def)
  then show ?case
    by (auto intro!: quiet_1 exI)
next
  case (Suc n)
  define s1 where "s1 =
    (character_pause (uint (phase s)) (s\<lparr>message_ended := 0\<rparr>))\<lparr>phase := phase s + 1\<rparr>"
  from Suc.prems(4) have less: "unat (phase s) < 3"
    by simp
  then have "uint (phase s) \<le> 2"
    by (simp add: uint_nat del: of_nat_unat)
  with character_pause_step [OF Suc.prems(1-3)] have step: "signal_message msgs s = Some s1"
    by (simp add: Let_def s1_def)
  have same: "message_index s1 = message_index s" "character_index s1 = character_index s"
    "symbol_index s1 = symbol_index s"
    by (simp_all add: s1_def character_pause_def set_leds_cursor)
  have ended: "message_ended s1 = 0"
    by (simp add: s1_def character_pause_def set_leds_def)
  from less have "unat (phase s1) = unat (phase s) + 1"
    by (simp add: s1_def unat_phase_succ)
  with Suc.prems(4) have "unat (phase s1) + n = 3"
    by simp
  from Suc.IH [OF _ Suc.prems(2) _ this] Suc.prems(1,3)
  obtain s' where "quiet msgs (Suc n) s1 s'" "message_index s' = message_index s1"
    "character_index s' = character_index s1 + 1" "symbol_index s' = 0" "phase s' = 0"
    by (auto simp: same_cursor(1,2) [OF same])
  with quiet_Suc [OF step ended] same show ?case
    by auto
qed

lemma character_loop:
  assumes "current_character msgs s = Some c" "c \<noteq> NUL"
    and "symbol_index s = 0" "phase s = 0"
  shows "\<exists>s'. quiet msgs (character_ticks c) s s' \<and> message_index s' = message_index s \<and>
    character_index s' = character_index s + 1 \<and> symbol_index s' = 0 \<and> phase s' = 0"
proof -
  from symbols_loop [OF assms(1,2,4), of "get_morse c"] assms(3)
  obtain s1 where q1: "quiet msgs (sum_list (map symbol_ticks (get_morse c))) s s1"
    and same: "message_index s1 = message_index s" "character_index s1 = character_index s"
    and si: "unat (symbol_index s1) = length (get_morse c)" and ph: "phase s1 = 0"
    by auto
  have c1: "current_character msgs s1 = Some c"
    using assms(1) same_character [OF same] by simp
  from character_pause_loop [OF c1 assms(2) current_symbol_end [OF c1 si], of 3] ph
  obtain s' where "quiet msgs (Suc 3) s1 s'" "message_index s' = message_index s1"
    "character_index s' = character_index s1 + 1" "symbol_index s' = 0" "phase s' = 0"
    by auto
  with quiet_add [OF q1] same show ?thesis
    by (auto simp: character_ticks_def character_pause_len_def)
qed

lemma characters_loop:
  assumes "c_index msgs (unat (message_index s)) = Some m" "NUL \<notin> set m" "length m < 65536"
    and "symbol_index s = 0" "phase s = 0"
    and "unat (character_index s) \<le> length m"
    and "drop (unat (character_index s)) m = cs"
  shows "\<exists>s'. quiet msgs (sum_list (map character_ticks cs)) s s' \<and>
    message_index s' = message_index s \<and> unat (character_index s') = length m \<and>
    symbol_index s' = 0 \<and> phase s' = 0"
  using assms
proof (induction cs arbitrary: s)
  case Nil
  then have "unat (character_index s) = length m"
    by simp
  with Nil.prems(4,5) quiet_0 [of msgs s] show ?case
    by auto
next
  case (Cons c cs)
  note d = drop_Cons_nth [OF Cons.prems(7)]
  have c: "current_character msgs s = Some c"
    using Cons.prems(1) d(1,2) by (simp add: current_character_def c_index_def c_str_def nth_append)
  have "c \<in> set m"
    using d(1,2) nth_mem by blast
  with Cons.prems(2) have "c \<noteq> NUL"
    by auto
  from character_loop [OF c this Cons.prems(4,5)]
  obtain s1 where q1: "quiet msgs (character_ticks c) s s1"
    and mi: "message_index s1 = message_index s"
    and ci: "character_index s1 = character_index s + 1"
    and start: "symbol_index s1 = 0" "phase s1 = 0"
    by blast
  from d(1) Cons.prems(3) have "unat (character_index s) < 65535"
    by simp
  then have k: "unat (character_index s1) = Suc (unat (character_index s))"
    by (simp add: ci unat_index_succ)
  with d(1,3) have "unat (character_index s1) \<le> length m"
    and "drop (unat (character_index s1)) m = cs"
    by simp_all
  from Cons.IH [OF _ Cons.prems(2,3) start this] Cons.prems(1) mi
  obtain s' where "quiet msgs (sum_list (map character_ticks cs)) s1 s'"
    "message_index s' = message_index s1" "unat (character_index s') = length m"
    "symbol_index s' = 0" "phase s' = 0"
    by auto
  with quiet_add [OF q1] mi show ?case
    by auto
qed

lemma word_pause_loop:
  assumes "current_character msgs s = Some NUL" and "unat (phase s) + n = 5"
  shows "\<exists>s'. steps msgs (Suc n) s = Some s' \<and>
    map message_ended (run_trace msgs (Suc n) s) = replicate n (message_ended s) @ [1] \<and>
    message_index s' = message_index s \<and> character_index s' = 0 \<and> symbol_index s' = 0 \<and>
    phase s' = 0 \<and> message_ended s' = 1"
  using assms
proof (induction n arbitrary: s)
  case 0
  then have "\<not> uint (phase s) \<le> 4"
    by (simp add: uint_nat del: of_nat_unat)
  with word_pause_step [OF "0.prems"(1)]
  have "signal_message msgs s =
      Some (s\<lparr>message_ended := 1, phase := 0, symbol_index := 0, character_index := 0\<rparr>)"
    by simp
  then show ?case
    by simp
next
  case (Suc n)
  define s1 where "s1 = (word_pause (uint (phase s)) s)\<lparr>phase := phase s + 1\<rparr>"
  from Suc.prems(2) have less: "unat (phase s) < 5"
    by simp
  then have "uint (phase s) \<le> 4"
    by (simp add: uint_nat del: of_nat_unat)
  with word_pause_step [OF Suc.prems(1)] have step: "signal_message msgs s = Some s1"
    by (simp add: s1_def)
  have same: "message_index s1 = message_index s" "character_index s1 = character_index s"
    by (simp_all add: s1_def word_pause_def set_leds_cursor)
  have ended: "message_ended s1 = message_ended s"
    by (simp add: s1_def word_pause_def set_leds_def)
  from less have "unat (phase s1) = unat (phase s) + 1"
    by (simp add: s1_def unat_phase_succ)
  with Suc.prems(2) have "unat (phase s1) + n = 5"
    by simp
  from Suc.IH [OF _ this] Suc.prems(1) same_character [OF same, of msgs]
  obtain s' where "steps msgs (Suc n) s1 = Some s'"
    "map message_ended (run_trace msgs (Suc n) s1) = replicate n (message_ended s1) @ [1]"
    "message_index s' = message_index s1" "character_index s' = 0" "symbol_index s' = 0"
    "phase s' = 0" "message_ended s' = 1"
    by auto
  with step same ended show ?case
    by simp
qed

lemma steps_in_trace:
  "steps msgs n s = Some s' \<Longrightarrow> 0 < n \<Longrightarrow> s' \<in> set (run_trace msgs n s)"
proof (induction n arbitrary: s)
  case 0
  then show ?case by simp
next
  case (Suc n)
  then obtain s1 where step: "signal_message msgs s = Some s1" and rest: "steps msgs n s1 = Some s'"
    by (auto split: option.splits)
  show ?case
  proof (cases n)
    case 0
    with step rest show ?thesis by simp
  next
    case (Suc k)
    with Suc.IH [OF rest] step show ?thesis by simp
  qed
qed

lemma quiet_last:
  assumes "quiet msgs n s s'" and "0 < n"
  shows "message_ended s' = 0"
proof -
  from assms have "s' \<in> set (run_trace msgs n s)"
    by (simp add: quiet_def steps_in_trace)
  then have "message_ended s' \<in> set (map message_ended (run_trace msgs n s))"
    by simp
  with assms(1) show ?thesis
    by (simp add: quiet_def)
qed

lemma character_ticks_pos: "0 < character_ticks c"
  by (simp add: character_ticks_def)

lemma traversal:
  assumes "c_index msgs (unat (message_index s)) = Some m" "NUL \<notin> set m" "length m < 65536"
    and "character_index s = 0" "symbol_index s = 0" "phase s = 0"
  shows "\<exists>s'. steps msgs (message_ticks m) s = Some s' \<and> message_ended s' = 1 \<and>
      message_index s' = message_index s \<and> character_index s' = 0 \<and> symbol_index s' = 0 \<and>
      phase s' = 0"
    and "map message_ended (run_trace msgs (message_ticks m) s) =
      replicate (message_ticks m - 1) (if m = [] then message_ended s else 0) @ [1]"
proof -
  define a where "a = sum_list (map character_ticks m)"
  have ticks: "message_ticks m = a + 6"
    by (simp add: message_ticks_def a_def word_pause_len_def)
  from characters_loop [OF assms(1-3) assms(5,6), of m] assms(4)
  obtain s1 where q: "quiet msgs a s s1" and mi: "message_index s1 = message_index s"
    and ci: "unat (character_index s1) = length m" and ph: "phase s1 = 0"
    by (auto simp: a_def)
  have "current_character msgs s1 = Some NUL"
    using assms(1) mi ci by (simp add: current_character_def c_index_def c_str_def)
  from word_pause_loop [OF this, of 5] ph
  obtain s' where run: "steps msgs 6 s1 = Some s'"
    and trace: "map message_ended (run_trace msgs 6 s1) = replicate 5 (message_ended s1) @ [1]"
    and final: "message_index s' = message_index s1" "character_index s' = 0"
      "symbol_index s' = 0" "phase s' = 0" "message_ended s' = 1"
    by auto
  show "\<exists>s'. steps msgs (message_ticks m) s = Some s' \<and> message_ended s' = 1 \<and>
      message_index s' = message_index s \<and> character_index s' = 0 \<and> symbol_index s' = 0 \<and>
      phase s' = 0"
    using q run final mi by (simp add: ticks steps_add quiet_def)
  have e: "message_ended s1 = (if m = [] then message_ended s else 0)"
  proof (cases m)
    case Nil
    with q show ?thesis by (simp add: a_def quiet_def)
  next
    case (Cons c cs)
    then have "0 < a"
      using character_ticks_pos [of c] by (simp add: a_def)
    with quiet_last [OF q] Cons show ?thesis by simp
  qed
  show "map message_ended (run_trace msgs (message_ticks m) s) =
      replicate (message_ticks m - 1) (if m = [] then message_ended s else 0) @ [1]"
  proof -
    from q have "run_trace msgs (a + 6) s = run_trace msgs a s @ run_trace msgs 6 s1"
      by (simp add: quiet_def run_trace_add)
    with q trace have "map message_ended (run_trace msgs (message_ticks m) s) =
        (replicate a 0 @ replicate 5 (message_ended s1)) @ [1]"
      by (simp add: ticks quiet_def)
    moreover have "replicate a 0 @ replicate 5 (message_ended s1) =
        replicate (a + 5) (if m = [] then message_ended s else 0)"
      by (cases "m = []") (simp_all add: e a_def replicate_add)
    ultimately show ?thesis
      by (simp only: ticks) simp
  qed
qed

lemma signal_message_ended_value:
  assumes "signal_message msgs s = Some s'" and "current_character msgs s = Some c"
  shows "message_ended s' =
     (if c \<noteq> NUL then 0 else if uint (phase s) \<le> word_pause_len then message_ended s else 1)"
proof (cases "c = NUL")
  case True
  with word_pause_step [of msgs s] assms show ?thesis
    by (auto simp: word_pause_len_def word_pause_def set_leds_def split: if_splits)
next
  case False
  from assms(2) obtain message where
    m: "c_index msgs (unat (message_index s)) = Some message"
    and c: "c_index (c_str message) (unat (character_index s)) = Some c"
    by (auto simp: current_character_def split: option.splits)
  from assms(1) False have "message_ended s' = 0"
    unfolding signal_message_def m c option.case
    by (auto simp: next_symbol_def next_character_def Let_def signal_dot_def signal_dash_def
        word_pause_def character_pause_def set_leds_def split: option.splits if_splits)
  with False show ?thesis
    by simp
qed

text \<open>
  C3, as amended. For every message without \<open>NUL\<close> and shorter than 65536 characters, the
  traversal from the start of the message takes \<open>message_ticks\<close> steps, all defined. For a
  non-empty message \<open>message_ended\<close> is 0 after each step but the last; for the empty message
  it is after each step but the last what it was before the traversal (1 on a replay). The
  last step, which ends the pause between messages, sets it to 1 and leaves the cursor at
  the start of the message. It does not stay at 1 until the main loop clears it:
  a step at a character sets it to 0, so the first step of the replay of a non-empty
  message clears it. A step inside the pause between messages leaves it as it is, the
  button handlers never write it, and the main loop clears it exactly when it changes the
  message.
\<close>

theorem message_ended_once:
  "(c_index msgs (unat (message_index s)) = Some m \<and> NUL \<notin> set m \<and> length m < 65536 \<and>
    character_index s = 0 \<and> symbol_index s = 0 \<and> phase s = 0 \<longrightarrow>
      (\<exists>s1. steps msgs (message_ticks m) s = Some s1 \<and> message_ended s1 = 1 \<and>
         message_index s1 = message_index s \<and> character_index s1 = 0 \<and>
         symbol_index s1 = 0 \<and> phase s1 = 0) \<and>
      map message_ended (run_trace msgs (message_ticks m) s) =
        replicate (message_ticks m - 1) (if m = [] then message_ended s else 0) @ [1]) \<and>
   (signal_message msgs s = Some s' \<and> current_character msgs s = Some c \<longrightarrow>
      message_ended s' =
        (if c \<noteq> NUL then 0
         else if uint (phase s) \<le> word_pause_len then message_ended s else 1)) \<and>
   message_ended (press b s) = message_ended s \<and>
   message_ended (change_message s) =
     (if uint (next_message_index s) \<noteq> uint (message_index s) \<and> message_ended s = 1
      then 0 else message_ended s)"
proof (intro conjI impI)
  assume h: "c_index msgs (unat (message_index s)) = Some m \<and> NUL \<notin> set m \<and>
    length m < 65536 \<and> character_index s = 0 \<and> symbol_index s = 0 \<and> phase s = 0"
  then show "\<exists>s1. steps msgs (message_ticks m) s = Some s1 \<and> message_ended s1 = 1 \<and>
         message_index s1 = message_index s \<and> character_index s1 = 0 \<and>
         symbol_index s1 = 0 \<and> phase s1 = 0"
    using traversal(1) [of msgs s m] by simp
  from h show "map message_ended (run_trace msgs (message_ticks m) s) =
        replicate (message_ticks m - 1) (if m = [] then message_ended s else 0) @ [1]"
    using traversal(2) [of msgs s m] by simp
next
  assume "signal_message msgs s = Some s' \<and> current_character msgs s = Some c"
  then show "message_ended s' =
        (if c \<noteq> NUL then 0
         else if uint (phase s) \<le> word_pause_len then message_ended s else 1)"
    using signal_message_ended_value [of msgs s s' c] by simp
next
  show "message_ended (press b s) = message_ended s"
    by (cases b) (simp_all add: gpioButtonFxn0_def gpioButtonFxn1_def)
  show "message_ended (change_message s) =
     (if uint (next_message_index s) \<noteq> uint (message_index s) \<and> message_ended s = 1
      then 0 else message_ended s)"
    by (simp add: change_message_eq)
qed

theorem message_ended_once_witness:
  "c_index messages (unat (message_index init_state)) = Some ''ss'' \<and> NUL \<notin> set ''ss'' \<and>
   length ''ss'' < (65536 :: nat) \<and> character_index init_state = 0 \<and>
   symbol_index init_state = 0 \<and> phase init_state = 0 \<and> message_ticks ''ss'' = 32 \<and>
   map message_ended (run_trace messages (message_ticks ''ss'') init_state) =
     replicate (message_ticks ''ss'' - 1) 0 @ [1] \<and>
   current_character messages (init_state\<lparr>message_ended := 1\<rparr>) = Some CHR ''s'' \<and>
   map_option message_ended (signal_message messages (init_state\<lparr>message_ended := 1\<rparr>)) = Some 0"
proof -
  have h: "c_index messages (unat (message_index init_state)) = Some ''ss'' \<and>
    NUL \<notin> set ''ss'' \<and> length ''ss'' < (65536 :: nat) \<and> character_index init_state = 0 \<and>
    symbol_index init_state = 0 \<and> phase init_state = 0"
    by (simp add: init_state_def messages_def c_index_def NUL_def)
  have t: "message_ticks ''ss'' = 32"
    by code_simp
  have c: "current_character messages (init_state\<lparr>message_ended := 1\<rparr>) = Some CHR ''s''"
    by code_simp
  have "signal_message messages (init_state\<lparr>message_ended := 1\<rparr>) \<noteq> None"
    by code_simp
  then obtain s' where d: "signal_message messages (init_state\<lparr>message_ended := 1\<rparr>) = Some s'"
    by blast
  from message_ended_once [of messages init_state "''ss''"] h
  have e: "map message_ended (run_trace messages (message_ticks ''ss'') init_state) =
     replicate (message_ticks ''ss'' - 1) 0 @ [1]"
    by simp
  from message_ended_once [of messages "init_state\<lparr>message_ended := 1\<rparr>" _ s' "CHR ''s''"] c d
  have "message_ended s' = 0"
    by (simp add: NUL_def)
  with h t c d e show ?thesis
    by simp
qed

text \<open>
  C3 as stated fails: after the 32 steps of the first message \<open>message_ended\<close> is 1, and
  step 33, with no change of message in between, sets it back to 0.
\<close>

theorem message_ended_cleared_counterexample:
  "map_option message_ended (steps messages 32 init_state) = Some 1 \<and>
   map_option message_ended (steps messages 33 init_state) = Some 0 \<and>
   map_option message_ended (signal_message messages (init_state\<lparr>message_ended := 1\<rparr>)) = Some 0"
  by code_simp

end
